theory Spec2Isabelle
  imports Complex_Main "HOL-Library.AList"
begin

section \<open>Common vocabulary\<close>

text \<open>
  The development follows \<^verbatim>\<open>finplot/__init__.py\<close>. Python floats are read as real
  numbers (no rounding, no overflow); \<^verbatim>\<open>NaN\<close> is kept as a value of its own where the
  source tests for it. Exceptions are values of type \<open>error\<close>. A leading underscore of a
  Python name is written \<open>u_\<close>, since an Isabelle name starts with a letter.
\<close>

datatype error = IndexError | KeyError | ValueError | TypeError | AssertionError
  | ZeroDivisionError | AttributeError | NotFinite

text \<open>
  A cell of a table: a finite number, an infinity, \<^verbatim>\<open>NaN\<close>, or an object (label) value.
\<close>

datatype cell = Num real | PosInf | NegInf | NaN | Obj string

datatype dtype = Numeric | Object

text \<open>
  A \<^verbatim>\<open>DataFrame\<close> with the default \<^verbatim>\<open>RangeIndex\<close> (row labels \<open>0, 1, ...\<close>, as
  \<^verbatim>\<open>reset_index\<close> leaves them): one dtype per column, the rows in order, and the column
  labels. An object cell holds a string; no two columns of a table carry the same label.
\<close>

record frame =
  dtypes :: "dtype list"
  body :: "cell list list"
  columns :: "string list"

definition len :: "frame \<Rightarrow> nat" where
  "len f = length (body f)"

definition ncols :: "frame \<Rightarrow> nat" where
  "ncols f = length (dtypes f)"

text \<open>
  \<^verbatim>\<open>df.loc[x0:x1, :]\<close> on the default index: the rows whose label lies in the closed
  interval, both ends included; bounds outside the index select nothing there and raise
  nothing.
\<close>

definition loc :: "real \<Rightarrow> real \<Rightarrow> 'a list \<Rightarrow> 'a list" where
  "loc x0 x1 rs = map snd (filter (\<lambda>(i, r). x0 \<le> real i \<and> real i \<le> x1) (enumerate 0 rs))"

text \<open>Python's \<^verbatim>\<open>int()\<close> of a float truncates towards zero.\<close>

definition py_int :: "real \<Rightarrow> int" where
  "py_int x = (if 0 \<le> x then \<lfloor>x\<rfloor> else \<lceil>x\<rceil>)"

text \<open>A quotient that is a finite number: the divisor is not zero.\<close>

definition py_div :: "real \<Rightarrow> real \<Rightarrow> real option" where
  "py_div x y = (if y = 0 then None else Some (x / y))"

section \<open>PandasDataSource: the hi-lo query and its cache\<close>

text \<open>
  The five values \<^verbatim>\<open>t0, t1, highest, lowest, number of rows\<close>. The cache is an
  \<^verbatim>\<open>OrderedDict\<close>: an association list in insertion order, oldest entry first. Its key
  is the string \<^verbatim>\<open>'%i,%i' % (x0,x1)\<close>, which determines the two integers and is
  determined by them, so the key is kept as the pair.
\<close>

type_synonym hilo_tuple = "cell \<times> cell \<times> cell \<times> cell \<times> nat"

record PandasDataSource =
  df :: frame
  col_data_offset :: nat
  scale_cols :: "nat list"
  cache_hilo :: "((int \<times> int) \<times> hilo_tuple) list"
  renames :: "(string \<times> string) list"

text \<open>
  \<^verbatim>\<open>DataFrame.max().max()\<close> and \<^verbatim>\<open>min().min()\<close> skip \<^verbatim>\<open>NaN\<close> and give \<^verbatim>\<open>NaN\<close> when
  nothing is left (also for an empty column selection), as \<^verbatim>\<open>numpy.nanmax\<close> does. The
  scale columns are numeric columns (\<^verbatim>\<open>__init__\<close> leaves the object columns out), so an
  object cell is not met here; it is passed over like \<^verbatim>\<open>NaN\<close>.
\<close>

fun nums :: "cell list \<Rightarrow> real list" where
  "nums [] = []"
| "nums (Num x # cs) = x # nums cs"
| "nums (c # cs) = nums cs"

definition nanmax :: "cell list \<Rightarrow> cell" where
  "nanmax cs =
    (if PosInf \<in> set cs then PosInf
     else case nums cs of
       [] \<Rightarrow> (if NegInf \<in> set cs then NegInf else NaN)
     | x # xs \<Rightarrow> Num (fold max xs x))"

definition nanmin :: "cell list \<Rightarrow> cell" where
  "nanmin cs =
    (if NegInf \<in> set cs then NegInf
     else case nums cs of
       [] \<Rightarrow> (if PosInf \<in> set cs then PosInf else NaN)
     | x # xs \<Rightarrow> Num (fold min xs x))"

text \<open>
  \<^verbatim>\<open>_has_timecol\<close>, and the comparisons \<^verbatim>\<open>c > r\<close> and \<^verbatim>\<open>c < r\<close> of a numeric cell with a
  number (both false for \<^verbatim>\<open>NaN\<close>).
\<close>

definition u_has_timecol :: "frame \<Rightarrow> bool" where
  "u_has_timecol f = (2 \<le> ncols f)"

fun cell_gt :: "cell \<Rightarrow> real \<Rightarrow> bool" where
  "cell_gt (Num x) r = (r < x)"
| "cell_gt PosInf r = True"
| "cell_gt c r = False"

fun cell_lt :: "cell \<Rightarrow> real \<Rightarrow> bool" where
  "cell_lt (Num x) r = (x < r)"
| "cell_lt NegInf r = True"
| "cell_lt c r = False"

fun is_obj :: "cell \<Rightarrow> bool" where
  "is_obj (Obj s) = True"
| "is_obj c = False"

text \<open>
  A numeric cell times or divided by a positive constant (rounding aside); the infinities
  and \<^verbatim>\<open>NaN\<close> stay.
\<close>

fun map_num :: "(real \<Rightarrow> real) \<Rightarrow> cell \<Rightarrow> cell" where
  "map_num g (Num x) = Num (g x)"
| "map_num g c = c"

text \<open>
  \<^verbatim>\<open>_pdtime2epoch\<close> on a column and its dtype. No cell is a \<^verbatim>\<open>Timestamp\<close>, so the first
  test fails (it raises \<^verbatim>\<open>IndexError\<close> on an empty column); comparing the largest element
  of a column with a string in it raises \<^verbatim>\<open>TypeError\<close>. Nanosecond epochs are divided by
  \<open>1e3\<close>, second epochs are multiplied by \<open>1e3\<close>, both as \<^verbatim>\<open>float64\<close>.
\<close>

definition u_pdtime2epoch :: "dtype \<times> cell list \<Rightarrow> error + dtype \<times> cell list" where
  "u_pdtime2epoch t =
    (if snd t = [] then Inl IndexError
     else if list_ex is_obj (snd t) then Inl TypeError
     else if cell_gt (nanmax (snd t)) (10 ^ 13)
       then Inr (Numeric, map (map_num (\<lambda>x. x / 1000)) (snd t))
     else if cell_lt (nanmax (snd t)) (10 ^ 10)
       then Inr (Numeric, map (map_num (\<lambda>x. x * 1000)) (snd t))
     else Inr t)"

text \<open>
  \<^verbatim>\<open>df.reset_index()\<close> on the default index: the row labels become a first column,
  labelled \<^verbatim>\<open>index\<close>, or \<^verbatim>\<open>level_0\<close> when that label is taken (\<^verbatim>\<open>ValueError\<close> when both
  are).
\<close>

definition reset_index :: "frame \<Rightarrow> error + frame" where
  "reset_index f =
    (if ''index'' \<in> set (columns f) \<and> ''level_0'' \<in> set (columns f) then Inl ValueError
     else Inr \<lparr>dtypes = Numeric # dtypes f,
               body = map (\<lambda>(i, r). Num (real i) # r) (enumerate 0 (body f)),
               columns = (if ''index'' \<in> set (columns f) then ''level_0'' else ''index'')
                         # columns f\<rparr>)"

text \<open>
  \<^verbatim>\<open>__init__\<close>, last part (\<^verbatim>\<open>setup data for joining data sources and zooming\<close>), with the
  choice of \<^verbatim>\<open>col_data_offset\<close>: the data columns start after the time column when there
  are at least two columns, every non-object data column scales, and the cache and the
  renamings start empty.
\<close>

definition init_fields :: "frame \<Rightarrow> PandasDataSource" where
  "init_fields f =
    (let off = (if u_has_timecol f then 1 else 0) in
     \<lparr> df = f, col_data_offset = off,
       scale_cols = filter (\<lambda>i. dtypes f ! i \<noteq> Object) [off ..< ncols f],
       cache_hilo = [], renames = [] \<rparr>)"

text \<open>
  \<^verbatim>\<open>__init__\<close> on a table with the default index. \<^verbatim>\<open>df.index[-1]\<close> raises \<^verbatim>\<open>IndexError\<close>
  on an empty table; a last row label above \<open>1e7\<close> has the index reset. With a time column
  (\<^verbatim>\<open>manage time column\<close>), a column that is not numeric with its last time below \<open>1e7\<close> is
  converted by \<^verbatim>\<open>_pdtime2epoch\<close>.
\<close>

definition init_datasrc :: "frame \<Rightarrow> error + PandasDataSource" where
  "init_datasrc df0 =
    (if len df0 = 0 then Inl IndexError
     else
       case (if 10 ^ 7 < real (len df0 - 1) then reset_index df0 else Inr df0) of
         Inl e \<Rightarrow> Inl e
       | Inr f \<Rightarrow>
          if u_has_timecol f then
            (let t = map (\<lambda>r. r ! 0) (body f);
                 isnum = (dtypes f ! 0 \<noteq> Object \<and> cell_lt (last t) (10 ^ 7)) in
             if isnum then Inr (init_fields f)
             else
               case u_pdtime2epoch (dtypes f ! 0, t) of
                 Inl e \<Rightarrow> Inl e
               | Inr (d, t') \<Rightarrow>
                   Inr (init_fields (f\<lparr>dtypes := (dtypes f)[0 := d],
                          body := map (\<lambda>(r, v). r[0 := v]) (zip (body f) t')\<rparr>)))
          else Inr (init_fields f))"

text \<open>
  For \<^verbatim>\<open>update\<close>: the position of a label among the columns; \<^verbatim>\<open>df.set_index(label)\<close>, which
  takes the column out of the table and makes it the row index (\<^verbatim>\<open>KeyError\<close> for a label
  that is not there); and \<^verbatim>\<open>data[col] = df[col]\<close>, which aligns the values on the row
  index: taken as they are when both tables have the same index, else looked up by
  index value (\<^verbatim>\<open>NaN\<close> where the old table has none; \<^verbatim>\<open>ValueError\<close> when the old index
  has a value twice).
\<close>

fun position :: "'a \<Rightarrow> 'a list \<Rightarrow> nat option" where
  "position x [] = None"
| "position x (y # ys) = (if x = y then Some 0 else map_option Suc (position x ys))"

definition drop_nth :: "nat \<Rightarrow> 'a list \<Rightarrow> 'a list" where
  "drop_nth j xs = take j xs @ drop (Suc j) xs"

definition set_index :: "string \<Rightarrow> frame \<Rightarrow> error + (dtype \<times> cell list) \<times> frame" where
  "set_index label f =
    (case position label (columns f) of
       None \<Rightarrow> Inl KeyError
     | Some j \<Rightarrow>
         Inr ((dtypes f ! j, map (\<lambda>r. r ! j) (body f)),
              \<lparr>dtypes = drop_nth j (dtypes f), body = map (drop_nth j) (body f),
               columns = drop_nth j (columns f)\<rparr>))"

definition align :: "cell list \<Rightarrow> cell list \<Rightarrow> cell list \<Rightarrow> error + cell list" where
  "align old_index vals new_index =
    (if old_index = new_index then Inr vals
     else if \<not> distinct old_index then Inl ValueError
     else Inr (map (\<lambda>t. case map_of (zip old_index vals) t of None \<Rightarrow> NaN | Some v \<Rightarrow> v)
                 new_index))"

text \<open>
  The loop \<^verbatim>\<open>for col in df.columns\<close> of \<^verbatim>\<open>update\<close>, one round for the old column at
  position \<open>j\<close>: a column the new data lacks is added to it at the end.
\<close>

definition fill_missing ::
  "cell list \<Rightarrow> frame \<Rightarrow> cell list \<Rightarrow> nat \<Rightarrow> error + frame \<Rightarrow> error + frame" where
  "fill_missing old_index old new_index j acc =
    (case acc of
       Inl e \<Rightarrow> Inl e
     | Inr data \<Rightarrow>
        if columns old ! j \<in> set (columns data) then Inr data
        else
          case align old_index (map (\<lambda>r. r ! j) (body old)) new_index of
            Inl e \<Rightarrow> Inl e
          | Inr vals \<Rightarrow>
              Inr \<lparr>dtypes = dtypes data @ [dtypes old ! j],
                   body = map (\<lambda>(r, v). r @ [v]) (zip (body data) vals),
                   columns = columns data @ [columns old ! j]\<rparr>)"

text \<open>
  \<^verbatim>\<open>data[orig_cols]\<close>: the columns with the given labels, in the order given.
\<close>

definition select_columns :: "string list \<Rightarrow> frame \<Rightarrow> error + frame" where
  "select_columns labels f =
    (case those (map (\<lambda>l. position l (columns f)) labels) of
       None \<Rightarrow> Inl KeyError
     | Some js \<Rightarrow>
         Inr \<lparr>dtypes = map (\<lambda>j. dtypes f ! j) js,
              body = map (\<lambda>r. map (\<lambda>j. r ! j) js) (body f),
              columns = labels\<rparr>)"

text \<open>
  \<^verbatim>\<open>update\<close>: the table is replaced by the new source's, indexed by the time column, with
  the columns it lacks carried over from the old table, and cut to the old columns
  (\<^verbatim>\<open>reset_index\<close> raises \<^verbatim>\<open>ValueError\<close> when the time label is among the data columns
  already). No other attribute kept here is assigned; \<^verbatim>\<open>cache_hilo\<close> in particular stays
  as it is.
\<close>

definition update :: "PandasDataSource \<Rightarrow> PandasDataSource \<Rightarrow> error + PandasDataSource" where
  "update self datasrc =
    (let orig_cols = columns (df self) in
     case orig_cols of
       [] \<Rightarrow> Inl IndexError
     | timecol # others \<Rightarrow>
        (case set_index timecol (df self) of
           Inl e \<Rightarrow> Inl e
         | Inr ((d, old_index), old) \<Rightarrow>
            (case set_index timecol (df datasrc) of
               Inl e \<Rightarrow> Inl e
             | Inr ((d', new_index), data0) \<Rightarrow>
                (let data1 = data0\<lparr>columns :=
                       map (\<lambda>col. case map_of (renames self) col of None \<Rightarrow> col | Some c \<Rightarrow> c)
                         (columns data0)\<rparr> in
                 case fold (fill_missing old_index old new_index) [0 ..< ncols old] (Inr data1) of
                   Inl e \<Rightarrow> Inl e
                 | Inr data2 \<Rightarrow>
                    if timecol \<in> set (columns data2) then Inl ValueError
                    else
                      (let data3 = \<lparr>dtypes = d' # dtypes data2,
                                     body = map (\<lambda>(t, r). t # r) (zip new_index (body data2)),
                                     columns = timecol # columns data2\<rparr> in
                       case select_columns orig_cols data3 of
                         Inl e \<Rightarrow> Inl e
                       | Inr f \<Rightarrow> Inr (self\<lparr>df := f\<rparr>))))))"

definition zero_tuple :: hilo_tuple where
  "zero_tuple = (Num 0, Num 0, Num 0, Num 0, 0)"

text \<open>
  \<^verbatim>\<open>_hilo\<close>: the scan of the scale columns over the rows \<open>x0..x1\<close>. An empty slice
  returns before any column is touched; \<^verbatim>\<open>df.columns[0]\<close> and
  \<^verbatim>\<open>df.columns[self.scale_cols]\<close> raise \<^verbatim>\<open>IndexError\<close> on a position that does not exist.
\<close>

definition u_hilo :: "PandasDataSource \<Rightarrow> int \<Rightarrow> int \<Rightarrow> error + hilo_tuple" where
  "u_hilo self x0 x1 =
    (let rs = loc (real_of_int x0) (real_of_int x1) (body (df self)) in
     if length rs = 0 then Inr zero_tuple
     else if ncols (df self) = 0 then Inl IndexError
     else
       let t0 = hd rs ! 0; t1 = last rs ! 0 in
       if list_ex (\<lambda>c. ncols (df self) \<le> c) (scale_cols self) then Inl IndexError
       else
         let vals = concat (map (\<lambda>r. map (\<lambda>c. r ! c) (scale_cols self)) rs) in
         Inr (t0, t1, nanmax vals, nanmin vals, length rs))"

text \<open>The canonical integer range of a query, as \<^verbatim>\<open>hilo\<close> computes it first.\<close>

definition hilo_query :: "real \<Rightarrow> real \<Rightarrow> int \<times> int" where
  "hilo_query x0 x1 =
    (if x0 = x1 then (py_int x1, py_int x1) else (py_int (x0 + 0.5), py_int x1))"

text \<open>\<^verbatim>\<open>del self.cache_hilo[next(iter(self.cache_hilo))]\<close> when more than 100 are held.\<close>

definition drop_if_too_many ::
  "((int \<times> int) \<times> hilo_tuple) list \<Rightarrow> ((int \<times> int) \<times> hilo_tuple) list" where
  "drop_if_too_many c = (if length c > 100 then tl c else c)"

text \<open>
  \<^verbatim>\<open>hilo\<close>: a miss computes and appends; a hit pops the entry and appends it again. The
  source object is returned with its new cache. When \<^verbatim>\<open>_hilo\<close> raises, nothing has been
  assigned.
\<close>

definition hilo ::
  "PandasDataSource \<Rightarrow> real \<Rightarrow> real \<Rightarrow> error + (hilo_tuple \<times> PandasDataSource)" where
  "hilo self x0 x1 =
    (let query = hilo_query x0 x1 in
     case map_of (cache_hilo self) query of
       None \<Rightarrow>
         (case u_hilo self (fst query) (snd query) of
            Inl e \<Rightarrow> Inl e
          | Inr v \<Rightarrow>
              Inr (v, self\<lparr>cache_hilo := drop_if_too_many (cache_hilo self @ [(query, v)])\<rparr>))
     | Some v \<Rightarrow>
         Inr (v, self\<lparr>cache_hilo :=
                drop_if_too_many (AList.delete query (cache_hilo self) @ [(query, v)])\<rparr>))"

text \<open>
  What the statements below ask of a source: the columns a query touches exist, and every
  cached entry is what \<^verbatim>\<open>_hilo\<close> computes on the table as it is now.
\<close>

definition columns_ok :: "PandasDataSource \<Rightarrow> bool" where
  "columns_ok self = (0 < ncols (df self) \<and> list_all (\<lambda>c. c < ncols (df self)) (scale_cols self))"

definition cache_ok :: "PandasDataSource \<Rightarrow> bool" where
  "cache_ok self = list_all (\<lambda>(q, v). u_hilo self (fst q) (snd q) = Inr v) (cache_hilo self)"


definition no_rows :: "PandasDataSource \<Rightarrow> int \<Rightarrow> int \<Rightarrow> bool" where
  "no_rows self x0 x1 = (x1 < x0 \<or> x1 < 0 \<or> int (len (df self)) \<le> x0)"

text \<open>
  A source after a series of queries; a query that raises leaves the object as it was.
\<close>

fun queries :: "PandasDataSource \<Rightarrow> (real \<times> real) list \<Rightarrow> PandasDataSource" where
  "queries self [] = self"
| "queries self (q # qs) =
    (case hilo self (fst q) (snd q) of
       Inl e \<Rightarrow> queries self qs
     | Inr (v, self') \<Rightarrow> queries self' qs)"

text \<open>
  What holds of the cache at all times: it agrees with the table, holds at most 100
  entries and no key twice.
\<close>

definition cache_inv :: "PandasDataSource \<Rightarrow> bool" where
  "cache_inv self =
    (cache_ok self \<and> length (cache_hilo self) \<le> 100 \<and> distinct (map fst (cache_hilo self)))"

text \<open>
  For the examples: a table of three rows with a time and a value column, and a full cache
  of 100 entries for ranges beyond its rows.
\<close>

definition example_frame :: frame where
  "example_frame = \<lparr>dtypes = [Numeric, Numeric],
     body = [[Num 10, Num 5], [Num 20, Num 7], [Num 30, NaN]],
     columns = [''time'', ''price'']\<rparr>"

definition full_cache :: "((int \<times> int) \<times> hilo_tuple) list" where
  "full_cache = map (\<lambda>i. ((int i, int i), zero_tuple)) [3..<103]"

section \<open>PandasDataSource: rows for drawing\<close>

text \<open>
  The module's setting for level of detail, at the value the module gives it (on Windows
  the module replaces it by a multiple of the screen width when it is loaded).
\<close>

definition lod_candles :: nat where
  "lod_candles = 3000"

record YScale =
  scaletype :: string
  scalef :: real

text \<open>
  numpy's elementwise \<^verbatim>\<open>log10\<close> and division on a cell, as IEEE arithmetic gives them
  on the extended numbers (rounding and the sign of zero aside). Callers apply them to
  numeric columns only.
\<close>

fun np_log10 :: "cell \<Rightarrow> cell" where
  "np_log10 (Num x) = (if 0 < x then Num (log 10 x) else if x = 0 then NegInf else NaN)"
| "np_log10 PosInf = PosInf"
| "np_log10 NegInf = NaN"
| "np_log10 NaN = NaN"
| "np_log10 (Obj s) = Obj s"

fun np_truediv :: "cell \<Rightarrow> real \<Rightarrow> cell" where
  "np_truediv (Num x) f =
    (if f \<noteq> 0 then Num (x / f)
     else if 0 < x then PosInf else if x < 0 then NegInf else NaN)"
| "np_truediv PosInf f = (if 0 \<le> f then PosInf else NegInf)"
| "np_truediv NegInf f = (if 0 \<le> f then NegInf else PosInf)"
| "np_truediv NaN f = NaN"
| "np_truediv (Obj s) f = Obj s"

text \<open>
  A \<^verbatim>\<open>DataFrame\<close> object that \<^verbatim>\<open>rows\<close> hands around is either a selection of rows and
  columns of the source's own table, sharing its memory (a slice or an \<^verbatim>\<open>iloc\<close> selection
  is read as a view, the most sharing pandas can give), or a table of its own, as
  \<^verbatim>\<open>copy()\<close> makes one. A write through a view lands in the source's table.
\<close>

datatype dataframe = View "nat list" "nat list" | Fresh frame

fun df_len :: "dataframe \<Rightarrow> nat" where
  "df_len (View rs cs) = length rs"
| "df_len (Fresh f) = length (body f)"

fun df_ncols :: "dataframe \<Rightarrow> nat" where
  "df_ncols (View rs cs) = length cs"
| "df_ncols (Fresh f) = length (dtypes f)"

text \<open>The elements at positions \<open>0, k, 2k, ...\<close>: what the slice \<^verbatim>\<open>[::k]\<close> keeps.\<close>

fun every :: "nat \<Rightarrow> 'a list \<Rightarrow> 'a list" where
  "every k [] = []"
| "every k (x # xs) = x # every k (drop (k - 1) xs)"

text \<open>\<^verbatim>\<open>df.iloc[::k]\<close>; a step of zero raises \<^verbatim>\<open>ValueError\<close>.\<close>

fun iloc_step :: "nat \<Rightarrow> dataframe \<Rightarrow> error + dataframe" where
  "iloc_step k (View rs cs) = (if k = 0 then Inl ValueError else Inr (View (every k rs) cs))"
| "iloc_step k (Fresh f) =
    (if k = 0 then Inl ValueError else Inr (Fresh (f\<lparr>body := every k (body f)\<rparr>)))"

text \<open>\<^verbatim>\<open>df.iloc[:,colidxs]\<close>; a position beyond the columns raises \<^verbatim>\<open>IndexError\<close>.\<close>

fun iloc_cols :: "nat list \<Rightarrow> dataframe \<Rightarrow> error + dataframe" where
  "iloc_cols colidxs (View rs cs) =
    (if list_ex (\<lambda>c. length cs \<le> c) colidxs then Inl IndexError
     else Inr (View rs (map (\<lambda>c. cs ! c) colidxs)))"
| "iloc_cols colidxs (Fresh f) =
    (if list_ex (\<lambda>c. length (dtypes f) \<le> c) colidxs then Inl IndexError
     else Inr (Fresh \<lparr>dtypes = map (\<lambda>c. dtypes f ! c) colidxs,
                      body = map (\<lambda>r. map (\<lambda>c. r ! c) colidxs) (body f),
                      columns = map (\<lambda>c. columns f ! c) colidxs\<rparr>))"

text \<open>\<^verbatim>\<open>dfr.copy()\<close>: the cells a view shows, in a table of their own.\<close>

fun copy :: "PandasDataSource \<Rightarrow> dataframe \<Rightarrow> dataframe" where
  "copy self (View rs cs) =
    Fresh \<lparr>dtypes = map (\<lambda>c. dtypes (df self) ! c) cs,
           body = map (\<lambda>r. map (\<lambda>c. body (df self) ! r ! c) cs) rs,
           columns = map (\<lambda>c. columns (df self) ! c) cs\<rparr>"
| "copy self (Fresh f) = Fresh f"

fun col_dtype :: "PandasDataSource \<Rightarrow> dataframe \<Rightarrow> nat \<Rightarrow> dtype" where
  "col_dtype self (View rs cs) i = dtypes (df self) ! (cs ! i)"
| "col_dtype self (Fresh f) i = dtypes f ! i"

text \<open>\<^verbatim>\<open>dfr.iloc[:,i]\<close> read, and \<^verbatim>\<open>dfr.iloc[:,i] = vals\<close> written.\<close>

fun get_col :: "PandasDataSource \<Rightarrow> dataframe \<Rightarrow> nat \<Rightarrow> cell list" where
  "get_col self (View rs cs) i = map (\<lambda>r. body (df self) ! r ! (cs ! i)) rs"
| "get_col self (Fresh f) i = map (\<lambda>r. r ! i) (body f)"

definition write_cell :: "nat \<Rightarrow> nat \<times> cell \<Rightarrow> cell list list \<Rightarrow> cell list list" where
  "write_cell c p b = b[fst p := (b ! fst p)[c := snd p]]"

fun set_col ::
  "nat \<Rightarrow> cell list \<Rightarrow> PandasDataSource \<times> dataframe \<Rightarrow> PandasDataSource \<times> dataframe" where
  "set_col i vals (self, View rs cs) =
    (self\<lparr>df := (df self)\<lparr>body := fold (write_cell (cs ! i)) (zip rs vals) (body (df self))\<rparr>\<rparr>,
     View rs cs)"
| "set_col i vals (self, Fresh f) =
    (self, Fresh (f\<lparr>body := map (\<lambda>(r, v). r[i := v]) (zip (body f) vals)\<rparr>))"

text \<open>
  \<^verbatim>\<open>YScale.invxform\<close> on a column: the log scale computes a new column; the linear scale
  divides in place (\<^verbatim>\<open>y /= self.scalef\<close>), which writes where the column lives, and
  returns it.
\<close>

definition invxform_column ::
  "YScale \<Rightarrow> nat \<Rightarrow> PandasDataSource \<times> dataframe
    \<Rightarrow> cell list \<times> (PandasDataSource \<times> dataframe)" where
  "invxform_column yscale i st =
    (let y = get_col (fst st) (snd st) i in
     if scaletype yscale = ''log'' then (map np_log10 y, st)
     else
       let y' = map (\<lambda>c. np_truediv c (scalef yscale)) y in
       (y', set_col i y' st))"

text \<open>The body of the loop \<^verbatim>\<open>for i in range(1, colcnt+1)\<close>.\<close>

definition rescale_column ::
  "YScale \<Rightarrow> nat \<Rightarrow> PandasDataSource \<times> dataframe \<Rightarrow> PandasDataSource \<times> dataframe" where
  "rescale_column yscale i st =
    (if col_dtype (fst st) (snd st) i \<noteq> Object then
       (let (y, st') = invxform_column yscale i st in set_col i y st')
     else st)"

definition u_rows ::
  "PandasDataSource \<Rightarrow> dataframe \<Rightarrow> nat \<Rightarrow> YScale \<Rightarrow> bool
    \<Rightarrow> error + (dataframe \<times> PandasDataSource)" where
  "u_rows self d colcnt yscale lod =
    (case (if lod \<and> df_len d > lod_candles then iloc_step (df_len d div lod_candles) d
           else Inr d) of
       Inl e \<Rightarrow> Inl e
     | Inr d1 \<Rightarrow>
        (let colcnt1 = colcnt - 1;
             colidxs = 0 # [col_data_offset self ..< col_data_offset self + colcnt1] in
         case iloc_cols colidxs d1 of
           Inl e \<Rightarrow> Inl e
         | Inr dfr \<Rightarrow>
            if scaletype yscale = ''log'' \<or> scalef yscale \<noteq> 1 then
              (let st = fold (rescale_column yscale) [1 ..< colcnt1 + 1] (self, copy self dfr)
               in Inr (snd st, fst st))
            else Inr (dfr, self)))"

text \<open>\<^verbatim>\<open>rows\<close>: the label slice of the table, its length, and \<^verbatim>\<open>_rows\<close> of it.\<close>

definition rows ::
  "PandasDataSource \<Rightarrow> nat \<Rightarrow> real \<Rightarrow> real \<Rightarrow> YScale \<Rightarrow> bool
    \<Rightarrow> error + ((dataframe \<times> nat) \<times> PandasDataSource)" where
  "rows self colcnt x0 x1 yscale lod =
    (let d = View (loc x0 x1 [0 ..< len (df self)]) [0 ..< ncols (df self)];
         origlen = df_len d in
     case u_rows self d colcnt yscale lod of
       Inl e \<Rightarrow> Inl e
     | Inr (dfr, self') \<Rightarrow> Inr ((dfr, origlen), self'))"

text \<open>
  For the statements: a frame with memory of its own, the row count \<^verbatim>\<open>_rows\<close> leaves of
  \<open>n\<close> rows, and the column positions it selects.
\<close>

fun is_fresh :: "dataframe \<Rightarrow> bool" where
  "is_fresh (Fresh f) = True"
| "is_fresh (View rs cs) = False"

definition lod_rows :: "bool \<Rightarrow> nat \<Rightarrow> nat" where
  "lod_rows lod n =
    (if lod \<and> lod_candles < n then (n + n div lod_candles - 1) div (n div lod_candles) else n)"

definition colidxs_of :: "PandasDataSource \<Rightarrow> nat \<Rightarrow> nat list" where
  "colidxs_of self colcnt = 0 # [col_data_offset self ..< col_data_offset self + (colcnt - 1)]"

text \<open>
  For the examples: a table of 3001 rows, the identity scale, and the scale that halves
  with the small table halved.
\<close>

definition long_frame :: frame where
  "long_frame = \<lparr>dtypes = [Numeric, Numeric], body = replicate 3001 [Num 0, Num 1],
     columns = [''time'', ''price'']\<rparr>"

definition linear1 :: YScale where
  "linear1 = \<lparr>scaletype = ''linear'', scalef = 1\<rparr>"

definition halved :: YScale where
  "halved = \<lparr>scaletype = ''linear'', scalef = 2\<rparr>"

definition example_halved :: frame where
  "example_halved = \<lparr>dtypes = [Numeric, Numeric],
     body = [[Num 10, Num (5/2)], [Num 20, Num (7/2)], [Num 30, NaN]],
     columns = [''time'', ''price'']\<rparr>"

section \<open>FinViewBox: the visible range\<close>

subsection \<open>Double precision\<close>

text \<open>
  The range computations of the view box are followed in double precision. Python's
  \<^verbatim>\<open>float\<close> and numpy's \<^verbatim>\<open>float64\<close> are IEEE 754 binary64 numbers: a finite one is kept
  as the real number it stands for, and an arithmetic operation gives its exact result
  rounded to the nearest double, a tie to the one with the even significand. A double
  with exponent \<open>e\<close> is a multiple of \<open>2 ^ (e - 52)\<close>; the exponent is at least \<open>-1022\<close>
  (below that the numbers are subnormal, with the same spacing). A result whose rounding
  is beyond the largest double is no finite number (an infinity or an
  \<^verbatim>\<open>OverflowError\<close>, by the float type at hand): \<open>None\<close>.
\<close>

text \<open>Python's \<^verbatim>\<open>round()\<close> of a float: to the nearest integer, a tie to the even one.\<close>

definition py_round :: "real \<Rightarrow> int" where
  "py_round x =
    (let f = \<lfloor>x\<rfloor>; d = x - of_int f in
     if d < 1/2 then f else if 1/2 < d then f + 1 else if even f then f else f + 1)"

definition binade :: "real \<Rightarrow> int" where
  "binade x = (if x = 0 then - 1022 else max \<lfloor>log 2 \<bar>x\<bar>\<rfloor> (- 1022))"

definition ulp :: "real \<Rightarrow> real" where
  "ulp x = 2 powi (binade x - 52)"

definition nearest_double :: "real \<Rightarrow> real" where
  "nearest_double x = of_int (py_round (x / ulp x)) * ulp x"

definition double :: "real \<Rightarrow> real option" where
  "double x = (if \<bar>nearest_double x\<bar> < 2 ^ 1024 then Some (nearest_double x) else None)"

text \<open>
  Division, and \<^verbatim>\<open>**\<close> where the exact result is a real number (a positive base; zero to
  a non-negative power; a negative base to an integral power), taken as correctly rounded.
  \<open>None\<close> stands for every other outcome (\<^verbatim>\<open>nan\<close>, an infinity, a complex number or
  \<^verbatim>\<open>ZeroDivisionError\<close>, by the float type at hand).
\<close>

definition float_div :: "real \<Rightarrow> real \<Rightarrow> real option" where
  "float_div x y = (if y = 0 then None else double (x / y))"

definition py_pow :: "real \<Rightarrow> real \<Rightarrow> real option" where
  "py_pow x a =
    (if 0 < x then Some (x powr a)
     else if x = 0 then (if 0 < a then Some 0 else if a = 0 then Some 1 else None)
     else if a = of_int \<lfloor>a\<rfloor> then Some (x powi \<lfloor>a\<rfloor>)
     else None)"

definition float_pow :: "real \<Rightarrow> real \<Rightarrow> real option" where
  "float_pow x a = Option.bind (py_pow x a) double"

text \<open>
  The float literals \<^verbatim>\<open>2e-7\<close>, \<^verbatim>\<open>1e-100\<close> and \<^verbatim>\<open>1e50\<close> of \<^verbatim>\<open>update_y_zoom\<close>: the
  doubles nearest to these numbers.
\<close>

definition literal_2e_7 :: real where
  "literal_2e_7 = nearest_double (2 / 10 ^ 7)"

definition literal_1e_100 :: real where
  "literal_1e_100 = nearest_double (1 / 10 ^ 100)"

definition literal_1e50 :: real where
  "literal_1e50 = nearest_double (10 ^ 50)"

subsection \<open>The view box\<close>

text \<open>
  Module settings, at the values the module gives them.
\<close>

definition max_zoom_points :: nat where
  "max_zoom_points = 20"

definition right_margin_candles :: nat where
  "right_margin_candles = 5"

definition xlen :: "PandasDataSource \<Rightarrow> nat" where
  "xlen self = len (df self) + right_margin_candles"

text \<open>A \<^verbatim>\<open>QRectF\<close> by its edges; \<^verbatim>\<open>width()\<close> is right minus left.\<close>

record QRectF =
  x_left :: real
  y_top :: real
  x_right :: real
  y_bottom :: real

definition width :: "QRectF \<Rightarrow> real" where
  "width r = x_right r - x_left r"

text \<open>
  The view box: the fields of \<^verbatim>\<open>FinViewBox\<close> that the range computation reads, the two
  rectangles the host \<^verbatim>\<open>ViewBox\<close> reports in data coordinates (\<^verbatim>\<open>targetRect()\<close>,
  \<^verbatim>\<open>viewRect()\<close>), and the width of the widget on the screen in pixels (the host's
  \<^verbatim>\<open>width()\<close>), which the range computation does not read.
\<close>

record FinViewBox =
  datasrc :: "PandasDataSource option"
  yscale :: YScale
  v_zoom_scale :: real
  v_zoom_baseline :: real
  v_autozoom :: bool
  targetRect :: QRectF
  viewRect :: QRectF
  widget_width :: real

text \<open>
  The host's \<^verbatim>\<open>setRange(rect, padding=0)\<close> makes the rectangle asked for the target and the
  visible one.
\<close>

definition setRange :: "FinViewBox \<Rightarrow> QRectF \<Rightarrow> FinViewBox" where
  "setRange self r = self\<lparr>targetRect := r, viewRect := r\<rparr>"

text \<open>
  \<^verbatim>\<open>YScale.invxform(y, verify=True)\<close> on one number, as \<^verbatim>\<open>set_range\<close> calls it.
\<close>

definition invxform :: "YScale \<Rightarrow> real \<Rightarrow> bool \<Rightarrow> real option" where
  "invxform ys y verify =
    (if scaletype ys = ''log'' then
       (if verify \<and> y \<le> 0 then Some (- 1000000)
        else if 0 < y then double (log 10 y) else None)
     else float_div y (scalef ys))"

text \<open>
  \<^verbatim>\<open>update_y_zoom\<close>, first part: the edges are made rigid. Both are rounded to cell
  boundaries and kept inside the data; an edge that had to move drags the other one along.
  (\<^verbatim>\<open>round()\<close> gives an integer, which the addition of \<open>0.5\<close> turns into a float again;
  the float of a rounded float is that integer.)
\<close>

definition snap :: "real \<Rightarrow> real option" where
  "snap x = Option.bind (double (x - 1/2)) (\<lambda>a. double (of_int (py_round a) + 1/2))"

definition rigid_edges :: "real \<Rightarrow> real \<Rightarrow> real \<Rightarrow> (real \<times> real) option" where
  "rigid_edges xl_max x0 x1 =
    Option.bind (snap x0) (\<lambda>sl.
    Option.bind (snap x1) (\<lambda>sr.
    Option.bind (Option.bind (double xl_max) (\<lambda>n. double (n - 1/2))) (\<lambda>e.
    let xl = max sl (- (1/2)); xr = min sr e in
    Option.bind (double (xl - x0)) (\<lambda>dxl.
    Option.bind (double (xr - x1)) (\<lambda>dxr.
    Option.bind (if dxl > 0 then double (x1 + dxl) else Some x1) (\<lambda>x1a.
    Option.bind (if dxr < 0 then double (x0 + dxr) else Some x0) (\<lambda>x0a.
    Option.bind (snap x0a) (\<lambda>sl'.
    Option.bind (snap x1a) (\<lambda>sr'.
    Some (max sl' (- (1/2)), min sr' e))))))))))"

text \<open>
  \<^verbatim>\<open>update_y_zoom\<close>, last part: the y-range from the highest and lowest value. The linear
  branch on finite numbers; it has no finite result for a zoom scale of zero.
\<close>

definition y_zoom_linear :: "real \<Rightarrow> real \<Rightarrow> real \<Rightarrow> real \<Rightarrow> (real \<times> real) option" where
  "y_zoom_linear zoom_scale baseline hi lo =
    Option.bind (double (hi - lo)) (\<lambda>d.
    Option.bind (float_div d zoom_scale) (\<lambda>q.
    let rng = max q literal_2e_7 in
    Option.bind (double (hi + lo)) (\<lambda>s.
    Option.bind (double (s * baseline)) (\<lambda>base.
    Option.bind (double (rng * baseline)) (\<lambda>below.
    Option.bind (double (base - below)) (\<lambda>y0.
    Option.bind (double (1 - baseline)) (\<lambda>rest.
    Option.bind (double (rng * rest)) (\<lambda>above.
    Option.bind (double (base + above)) (\<lambda>y1.
    Some (y0, y1))))))))))"

text \<open>
  The logarithmic branch: \<^verbatim>\<open>1/self.v_zoom_scale\<close> raises for a zoom scale of zero; each of
  \<open>y0\<close>, \<open>y1\<close> is \<open>None\<close> when a power, the product or a division has no finite result.
\<close>

definition y_zoom_log ::
  "real \<Rightarrow> real \<Rightarrow> real \<Rightarrow> real \<Rightarrow> error + (real option \<times> real option)" where
  "y_zoom_log zoom_scale baseline hi lo0 =
    (let lo = max literal_1e_100 lo0 in
     if zoom_scale = 0 then Inl ZeroDivisionError
     else
       let rng = Option.bind (double (hi / lo)) (\<lambda>q.
                 Option.bind (double (1 / zoom_scale)) (\<lambda>e.
                 map_option (\<lambda>r. min r literal_1e50) (float_pow q e)));
           base = Option.bind (double (hi * lo)) (\<lambda>m. float_pow m baseline);
           y0 = Option.bind base (\<lambda>b. Option.bind rng (\<lambda>r.
                  Option.bind (float_pow r baseline) (\<lambda>p. float_div b p)));
           y1 = Option.bind base (\<lambda>b. Option.bind rng (\<lambda>r.
                  Option.bind (double (1 - baseline)) (\<lambda>rest.
                  Option.bind (float_pow r rest) (\<lambda>p. double (b * p)))))
       in Inr (y0, y1))"

text \<open>
  \<^verbatim>\<open>set_range\<close> with both x given: the y values go through \<^verbatim>\<open>invxform\<close> and the host is
  asked for the rectangle. \<open>NotFinite\<close> is no exception of the source: it marks a
  computation that has left the finite numbers, which is not followed further.
\<close>

definition set_range :: "FinViewBox \<Rightarrow> real \<Rightarrow> real \<Rightarrow> real \<Rightarrow> real \<Rightarrow> error + FinViewBox" where
  "set_range self x0 y0 x1 y1 =
    (case (invxform (yscale self) y0 True, invxform (yscale self) y1 True) of
       (Some v0, Some v1) \<Rightarrow>
         Inr (setRange self \<lparr>x_left = x0, y_top = v0, x_right = x1, y_bottom = v1\<rparr>)
     | _ \<Rightarrow> Inl NotFinite)"

text \<open>
  The range \<^verbatim>\<open>update_y_zoom\<close> starts from: its arguments, or the target rectangle's edges
  when one of them is \<^verbatim>\<open>None\<close>.
\<close>

definition given_range :: "FinViewBox \<Rightarrow> real option \<Rightarrow> real option \<Rightarrow> real \<times> real" where
  "given_range self a0 a1 =
    (case (a0, a1) of
       (Some x0, Some x1) \<Rightarrow> (x0, x1)
     | _ \<Rightarrow> (x_left (targetRect self), x_right (targetRect self)))"

text \<open>
  \<^verbatim>\<open>update_y_zoom\<close>. The query is made before the test that skips the update, so the
  source's cache is updated either way. The test compares the number of rows with the
  width of the view rectangle, in data coordinates. A \<^verbatim>\<open>NaN\<close> among the highest and lowest
  value gives \<^verbatim>\<open>NaN\<close> bounds, on which \<^verbatim>\<open>set_range\<close> returns at once.
\<close>

definition update_y_zoom :: "FinViewBox \<Rightarrow> real option \<Rightarrow> real option \<Rightarrow> error + FinViewBox" where
  "update_y_zoom self a0 a1 =
    (let (x0, x1) = given_range self a0 a1 in
     case datasrc self of
       None \<Rightarrow> Inl AttributeError
     | Some ds \<Rightarrow>
        (case rigid_edges (real (xlen ds)) x0 x1 of
           None \<Rightarrow> Inl NotFinite
         | Some (x0, x1) \<Rightarrow>
            (case hilo ds x0 x1 of
               Inl e \<Rightarrow> Inl e
             | Inr ((t0, t1, hi, lo, cnt), ds') \<Rightarrow>
                (let self1 = self\<lparr>datasrc := Some ds'\<rparr>; vr = viewRect self in
                 if real cnt < width vr \<and> cnt < max_zoom_points then Inr self1
                 else
                   (let (hi, lo) = (if \<not> v_autozoom self then (Num (y_bottom vr), Num (y_top vr))
                                    else (hi, lo)) in
                    if scaletype (yscale self) = ''log'' then
                      (case (hi, if lo = NaN \<or> lo = NegInf then Num literal_1e_100 else lo) of
                         (Num h, Num l) \<Rightarrow>
                           (case y_zoom_log (v_zoom_scale self) (v_zoom_baseline self) h l of
                              Inl e \<Rightarrow> Inl e
                            | Inr (Some y0, Some y1) \<Rightarrow> set_range self1 x0 y0 x1 y1
                            | Inr _ \<Rightarrow> Inl NotFinite)
                       | (NaN, Num l) \<Rightarrow>
                           (if v_zoom_scale self = 0 then Inl ZeroDivisionError else Inr self1)
                       | _ \<Rightarrow> Inl NotFinite)
                    else
                      (case (hi, lo) of
                         (Num h, Num l) \<Rightarrow>
                           (case y_zoom_linear (v_zoom_scale self) (v_zoom_baseline self) h l of
                              Some (y0, y1) \<Rightarrow> set_range self1 x0 y0 x1 y1
                            | None \<Rightarrow> Inl NotFinite)
                       | (NaN, Num l) \<Rightarrow> Inr self1
                       | (Num h, NaN) \<Rightarrow> Inr self1
                       | (NaN, NaN) \<Rightarrow> Inr self1
                       | _ \<Rightarrow> Inl NotFinite))))))"

text \<open>\<^verbatim>\<open>zoom_rect\<close>: both edges are scaled about the centre, then the update.\<close>

definition zoom_edge :: "real \<Rightarrow> real \<Rightarrow> real \<Rightarrow> real option" where
  "zoom_edge x scale_fact center_x =
    Option.bind (double (x - center_x)) (\<lambda>d.
    Option.bind (double (d * scale_fact)) (\<lambda>m. double (center_x + m)))"

definition zoom_edges :: "QRectF \<Rightarrow> real \<Rightarrow> real \<Rightarrow> (real \<times> real) option" where
  "zoom_edges vr scale_fact center_x =
    Option.bind (zoom_edge (x_left vr) scale_fact center_x) (\<lambda>x0.
    Option.bind (zoom_edge (x_right vr) scale_fact center_x) (\<lambda>x1. Some (x0, x1)))"

definition zoom_rect :: "FinViewBox \<Rightarrow> QRectF \<Rightarrow> real \<Rightarrow> real \<Rightarrow> error + FinViewBox" where
  "zoom_rect self vr scale_fact center_x =
    (case datasrc self of
       None \<Rightarrow> Inr self
     | Some ds \<Rightarrow>
        (case zoom_edges vr scale_fact center_x of
           None \<Rightarrow> Inl NotFinite
         | Some (x0, x1) \<Rightarrow> update_y_zoom self (Some x0) (Some x1)))"

text \<open>
  For the examples: a table of negative values in a view box with log scale, baseline 0
  and zoom scale 1.
\<close>

definition neg_frame :: frame where
  "neg_frame = \<lparr>dtypes = [Numeric, Numeric],
     body = [[Num 10, Num (- 2)], [Num 20, Num (- 1)], [Num 30, Num (- (3 / 2))]],
     columns = [''time'', ''price'']\<rparr>"

definition neg_box :: FinViewBox where
  "neg_box = \<lparr>datasrc = Some (init_fields neg_frame),
     yscale = \<lparr>scaletype = ''log'', scalef = 1\<rparr>,
     v_zoom_scale = 1, v_zoom_baseline = 0, v_autozoom = True,
     targetRect = \<lparr>x_left = - (1 / 2), y_top = 0, x_right = 5 / 2, y_bottom = 1\<rparr>,
     viewRect = \<lparr>x_left = - (1 / 2), y_top = 0, x_right = 5 / 2, y_bottom = 1\<rparr>,
     widget_width = 800\<rparr>"

text \<open>
  For the statements: both edges are cell boundaries (half-integers) inside the data and
  its right margin, the left one not right of the right one.
\<close>

definition on_cells :: "real \<Rightarrow> real \<Rightarrow> real \<Rightarrow> bool" where
  "on_cells xl_max x0 x1 =
    (x0 - 1/2 = of_int \<lfloor>x0 - 1/2\<rfloor> \<and> x1 - 1/2 = of_int \<lfloor>x1 - 1/2\<rfloor>
     \<and> - 1/2 \<le> x0 \<and> x0 \<le> x1 \<and> x1 \<le> xl_max - 1/2)"

text \<open>
  For the examples: the small table in a view ten cells wide.
\<close>

definition skip_box :: FinViewBox where
  "skip_box = \<lparr>datasrc = Some (init_fields example_frame),
     yscale = \<lparr>scaletype = ''linear'', scalef = 1\<rparr>,
     v_zoom_scale = 1, v_zoom_baseline = 1 / 2, v_autozoom = True,
     targetRect = \<lparr>x_left = - (1 / 2), y_top = 0, x_right = 19 / 2, y_bottom = 1\<rparr>,
     viewRect = \<lparr>x_left = - (1 / 2), y_top = 0, x_right = 19 / 2, y_bottom = 1\<rparr>,
     widget_width = 800\<rparr>"

text \<open>
  For the examples: a table of sixty rows (time \<open>i\<close>, low 1, high 3) in a linear view box
  800 pixels wide, with a given cache and visible x-range.
\<close>

definition sixty_frame :: frame where
  "sixty_frame = \<lparr>dtypes = [Numeric, Numeric, Numeric],
     body = map (\<lambda>i. [Num (real i), Num 1, Num 3]) [0..<60],
     columns = [''time'', ''low'', ''high'']\<rparr>"

definition sixty_box :: "((int \<times> int) \<times> hilo_tuple) list \<Rightarrow> real \<Rightarrow> real \<Rightarrow> FinViewBox" where
  "sixty_box cache x0 x1 =
    \<lparr>datasrc = Some ((init_fields sixty_frame)\<lparr>cache_hilo := cache\<rparr>),
     yscale = \<lparr>scaletype = ''linear'', scalef = 1\<rparr>,
     v_zoom_scale = 1, v_zoom_baseline = 1 / 2, v_autozoom = True,
     targetRect = \<lparr>x_left = x0, y_top = 1, x_right = x1, y_bottom = 3\<rparr>,
     viewRect = \<lparr>x_left = x0, y_top = 1, x_right = x1, y_bottom = 3\<rparr>,
     widget_width = 800\<rparr>"

section \<open>FinPlotItem: the cached picture\<close>

text \<open>
  The module's factor of extra candles rendered to the buffer.
\<close>

definition cache_candle_factor :: real where
  "cache_candle_factor = 3"

text \<open>
  The item: the dirty flag, the level-of-detail flag, the rectangle the picture was last
  generated for (absent until the first generation) and, for the effect of the drawing
  routine \<^verbatim>\<open>generate_picture\<close> of the subclass, the rectangles it has been called with,
  oldest first.
\<close>

record FinPlotItem =
  dirty :: bool
  lod :: bool
  cachedRect :: "QRectF option"
  generated :: "QRectF list"

text \<open>\<^verbatim>\<open>__init__\<close>: dirty, with no cached rectangle yet.\<close>

definition init_item :: "bool \<Rightarrow> FinPlotItem" where
  "init_item l = \<lparr>dirty = True, lod = l, cachedRect = None, generated = []\<rparr>"

text \<open>\<^verbatim>\<open>QRectF(x, y, w, h)\<close> by its edges.\<close>

definition QRectF_xywh :: "real \<Rightarrow> real \<Rightarrow> real \<Rightarrow> real \<Rightarrow> QRectF" where
  "QRectF_xywh x y w h = \<lparr>x_left = x, y_top = y, x_right = x + w, y_bottom = y + h\<rparr>"

definition u_generate_picture :: "FinPlotItem \<Rightarrow> QRectF \<Rightarrow> FinPlotItem" where
  "u_generate_picture self boundingRect =
    (let w = width boundingRect;
         c = QRectF_xywh (x_left boundingRect - w) 0 (cache_candle_factor * w) 0
     in self\<lparr>cachedRect := Some c, generated := generated self @ [c], dirty := False\<rparr>)"

text \<open>
  \<^verbatim>\<open>update_dirty_picture\<close>. The cached rectangle is read only when the item is not dirty
  and has level of detail; reading it before it exists raises \<^verbatim>\<open>AttributeError\<close>.
\<close>

definition update_dirty_picture :: "FinPlotItem \<Rightarrow> QRectF \<Rightarrow> error + FinPlotItem" where
  "update_dirty_picture self visibleRect =
    (if dirty self then Inr (u_generate_picture self visibleRect)
     else if \<not> lod self then Inr self
     else
       (case cachedRect self of
          None \<Rightarrow> Inl AttributeError
        | Some c \<Rightarrow>
            if x_left visibleRect < x_left c \<or> x_right visibleRect > x_right c
               \<or> width visibleRect < width c / cache_candle_factor
            then Inr (u_generate_picture self visibleRect)
            else Inr self))"

text \<open>The picture in hand still serves the visible rectangle.\<close>

definition still_valid :: "FinPlotItem \<Rightarrow> QRectF \<Rightarrow> bool" where
  "still_valid self vis =
    (\<not> dirty self \<and>
     (lod self \<longrightarrow>
        (case cachedRect self of
           None \<Rightarrow> False
         | Some c \<Rightarrow> x_left c \<le> x_left vis \<and> x_right vis \<le> x_right c
                      \<and> width c / 3 \<le> width vis)))"

text \<open>
  For the examples: an item whose picture was generated for the rows from 0 to 30.
\<close>

definition shown_item :: FinPlotItem where
  "shown_item = \<lparr>dirty = False, lod = True,
     cachedRect = Some \<lparr>x_left = 0, y_top = 0, x_right = 30, y_bottom = 0\<rparr>,
     generated = [\<lparr>x_left = 0, y_top = 0, x_right = 30, y_bottom = 0\<rparr>]\<rparr>"

section \<open>Times to row indices\<close>

text \<open>
  The argument of \<^verbatim>\<open>_pdtime2index\<close>: a series of \<^verbatim>\<open>Timestamp\<close>s (nanoseconds since the
  epoch) or of numbers. The first element decides which; an empty series has none.
\<close>

datatype tseries = Timestamps "int list" | Numbers "real list"

text \<open>The conversion to epoch milliseconds at the head of \<^verbatim>\<open>_pdtime2index\<close>.\<close>

fun to_epoch_ms :: "tseries \<Rightarrow> error + real list" where
  "to_epoch_ms (Timestamps []) = Inl IndexError"
| "to_epoch_ms (Timestamps ns) = Inr (map (\<lambda>n. real_of_int (n div 1000000)) ns)"
| "to_epoch_ms (Numbers []) = Inl IndexError"
| "to_epoch_ms (Numbers (v # vs)) =
    (let m = fold max vs v in
     if m > 10 ^ 13 then Inr (map (\<lambda>t. t / 1000) (v # vs))
     else if m < 10 ^ 10 then Inr (map (\<lambda>t. t * 1000) (v # vs))
     else Inr (v # vs))"

definition lerp :: "real \<Rightarrow> real \<Rightarrow> real \<Rightarrow> real" where
  "lerp t a b = t * b + (1 - t) * a"

text \<open>
  One round of the loop for the time \<open>t\<close> at position \<open>i\<close> of the series, over the time
  column \<open>xs\<close> (finite numbers, labelled \<open>0, 1, ...\<close>): an error, nothing appended
  (\<open>None\<close>), or one value appended. The first part is the block for a time with no later
  sample, which ends the round (\<^verbatim>\<open>continue\<close>), raises, or falls through. The value is
  \<open>None\<close> when the division is by zero and the quotient is no finite number.
\<close>

definition index_of_time :: "real list \<Rightarrow> nat \<Rightarrow> real \<Rightarrow> error + real option option" where
  "index_of_time xs i t =
    (let xss = filter (\<lambda>p. snd p > t) (enumerate 0 xs) in
     case (if length xss = 0 then
             (if xs = [] then Inl IndexError
              else
                let t0 = last xs in
                if t0 = t then Inr (Some (Some (Some (real (length xs - 1)))))
                else if i > 0 then Inr (Some None)
                else if t \<le> t0 then Inr None
                else Inl AssertionError)
           else Inr None) of
       Inl e \<Rightarrow> Inl e
     | Inr (Some out) \<Rightarrow> Inr out
     | Inr None \<Rightarrow>
        (if xss = [] then Inl IndexError
         else
           let i1 = fst (hd xss);
               i0 = int i1 - 1;
               (i0, i1) = (if i0 < 0 then (0, 1) else (nat i0, i1))
           in if length xs \<le> i1 then Inl KeyError
              else
                let t0 = xs ! i0; t1 = xs ! i1;
                    dt = py_div (t - t0) (t1 - t0)
                in Inr (Some (map_option (\<lambda>d. lerp d (real i0) (real i1)) dt))))"

fun index_loop :: "real list \<Rightarrow> nat \<Rightarrow> real list \<Rightarrow> error + real option list" where
  "index_loop xs i [] = Inr []"
| "index_loop xs i (t # ts) =
    (case index_of_time xs i t of
       Inl e \<Rightarrow> Inl e
     | Inr None \<Rightarrow> index_loop xs (Suc i) ts
     | Inr (Some v) \<Rightarrow>
        (case index_loop xs (Suc i) ts of Inl e \<Rightarrow> Inl e | Inr r \<Rightarrow> Inr (v # r)))"

text \<open>
  \<^verbatim>\<open>_pdtime2index\<close>; \<open>x\<close> is the time column of the data source that \<^verbatim>\<open>_get_datasrc\<close>
  finds for the axis, \<open>None\<close> when it finds none and its assertion fails.
\<close>

definition u_pdtime2index :: "real list option \<Rightarrow> tseries \<Rightarrow> error + real option list" where
  "u_pdtime2index x ts =
    (case to_epoch_ms ts of
       Inl e \<Rightarrow> Inl e
     | Inr ms \<Rightarrow>
        (case x of
           None \<Rightarrow> Inl AssertionError
         | Some xs \<Rightarrow> index_loop xs 0 ms))"

text \<open>
  For the examples: a time column of three samples a minute apart.
\<close>

definition minute_times :: "real list" where
  "minute_times = [1600000000000, 1600000060000, 1600000120000]"

section \<open>Properties of PandasDataSource: the hi-lo query and its cache\<close>

subsection \<open>Row counts of a label slice\<close>

lemma length_loc_filter:
  "length (loc x0 x1 rs) = length (filter (\<lambda>i. x0 \<le> real i \<and> real i \<le> x1) [0..<length rs])"
proof -
  let ?P = "\<lambda>i. x0 \<le> real i \<and> real i \<le> x1"
  have eq: "(\<lambda>(i, r). x0 \<le> real i \<and> real i \<le> x1) = (?P \<circ> fst)"
    by (simp add: fun_eq_iff)
  have "length (loc x0 x1 rs) = length (map fst (filter (?P \<circ> fst) (enumerate 0 rs)))"
    unfolding loc_def eq by simp
  also have "map fst (filter (?P \<circ> fst) (enumerate 0 rs)) = filter ?P (map fst (enumerate 0 rs))"
    by (rule filter_map [symmetric])
  also have "map fst (enumerate 0 rs) = [0..<length rs]"
    by simp
  finally show ?thesis .
qed

lemma interval_set:
  "{i. i < n \<and> lo \<le> int i \<and> int i \<le> hi} = {nat (max lo 0) ..< nat (min (hi + 1) (int n))}"
proof (rule set_eqI)
  fix i :: nat
  show "i \<in> {i. i < n \<and> lo \<le> int i \<and> int i \<le> hi} \<longleftrightarrow> i \<in> {nat (max lo 0) ..< nat (min (hi + 1) (int n))}"
    by (simp only: mem_Collect_eq atLeastLessThan_iff) linarith
qed

lemma length_loc_int:
  "int (length (loc (real_of_int lo) (real_of_int hi) rs)) = max 0 (min hi (int (length rs) - 1) - max lo 0 + 1)"
proof -
  have "length (loc (real_of_int lo) (real_of_int hi) rs) = card {i. i < length rs \<and> lo \<le> int i \<and> int i \<le> hi}"
  proof -
    have "\<And>i::nat. (real_of_int lo \<le> real i \<and> real i \<le> real_of_int hi) = (lo \<le> int i \<and> int i \<le> hi)"
      by linarith
    then have "length (loc (real_of_int lo) (real_of_int hi) rs) = length (filter (\<lambda>i. lo \<le> int i \<and> int i \<le> hi) [0..<length rs])"
      by (simp add: length_loc_filter)
    also have "\<dots> = card {i. i < length rs \<and> lo \<le> int i \<and> int i \<le> hi}"
      unfolding length_filter_conv_card
      by (rule arg_cong[where f=card]) auto
    finally show ?thesis .
  qed
  also have "\<dots> = nat (min (hi + 1) (int (length rs))) - nat (max lo 0)"
    by (simp only: interval_set card_atLeastLessThan)
  finally show ?thesis by linarith
qed

subsection \<open>Cache consistency\<close>

lemma u_hilo_cache_irrelevant: "u_hilo (self\<lparr>cache_hilo := c\<rparr>) x0 x1 = u_hilo self x0 x1"
  by (simp add: u_hilo_def Let_def)

lemma u_hilo_empty:
  "loc (real_of_int x0) (real_of_int x1) (body (df self)) = [] \<Longrightarrow> u_hilo self x0 x1 = Inr zero_tuple"
  by (simp add: u_hilo_def)

lemma u_hilo_returns:
  assumes "columns_ok self"
  shows "\<exists>t0 t1 hi lo. u_hilo self x0 x1 =
           Inr (t0, t1, hi, lo, length (loc (real_of_int x0) (real_of_int x1) (body (df self))))"
proof (cases "loc (real_of_int x0) (real_of_int x1) (body (df self)) = []")
  case True
  then show ?thesis by (simp add: u_hilo_def zero_tuple_def)
next
  case False
  moreover have "\<not> list_ex (\<lambda>c. ncols (df self) \<le> c) (scale_cols self)"
    using assms by (auto simp: columns_ok_def list_ex_iff list_all_iff)
  ultimately show ?thesis
    using assms by (simp add: u_hilo_def columns_ok_def Let_def)
qed


lemma drop_if_too_many_append:
  "drop_if_too_many (c @ [e]) = (if 100 \<le> length c then tl c @ [e] else c @ [e])"
  by (cases c) (auto simp: drop_if_too_many_def)


lemma delete_no_key: "q \<notin> fst ` set (AList.delete q c)"
  by (induction c) auto

lemma map_of_delete_same: "map_of (AList.delete q c) q = None"
  by (simp add: AList.delete_conv')


lemma hilo_hit:
  assumes "map_of (cache_hilo self) (hilo_query a b) = Some v"
  shows "\<exists>self'. hilo self a b = Inr (v, self')"
  using assms by (simp add: hilo_def Let_def)


lemma cache_ok_lookup:
  assumes "cache_ok self" "map_of (cache_hilo self) q = Some v"
  shows "u_hilo self (fst q) (snd q) = Inr v"
proof -
  have "(q, v) \<in> set (cache_hilo self)"
    using assms(2) by (rule map_of_SomeD)
  then show ?thesis
    using assms(1) by (auto simp: cache_ok_def list_all_iff)
qed

lemma hilo_result:
  assumes "cache_ok self" "hilo self a b = Inr (v, self')"
  shows "u_hilo self (fst (hilo_query a b)) (snd (hilo_query a b)) = Inr v"
  using assms
  by (auto simp: hilo_def Let_def cache_ok_lookup split: option.splits sum.splits)

lemma hilo_returns:
  assumes "columns_ok self"
  shows "\<exists>v self'. hilo self a b = Inr (v, self')"
proof (cases "map_of (cache_hilo self) (hilo_query a b)")
  case None
  obtain v where "u_hilo self (fst (hilo_query a b)) (snd (hilo_query a b)) = Inr v"
    using u_hilo_returns [OF assms] by blast
  with None have "hilo self a b = Inr (v, self\<lparr>cache_hilo :=
      drop_if_too_many (cache_hilo self @ [(hilo_query a b, v)])\<rparr>)"
    by (simp add: hilo_def Let_def)
  then show ?thesis by blast
next
  case (Some v)
  then show ?thesis using hilo_hit by blast
qed

lemma set_drop_if_too_many: "set (drop_if_too_many c) \<subseteq> set c"
  by (cases c) (auto simp: drop_if_too_many_def)

lemma hilo_frame:
  assumes "hilo self a b = Inr (v, self')"
  shows "self' = self\<lparr>cache_hilo := cache_hilo self'\<rparr>"
  using assms by (auto simp: hilo_def Let_def split: option.splits sum.splits)

lemma hilo_miss:
  assumes "map_of (cache_hilo self) (hilo_query a b) = None" "hilo self a b = Inr (v, self')"
  shows "u_hilo self (fst (hilo_query a b)) (snd (hilo_query a b)) = Inr v"
    and "cache_hilo self' = drop_if_too_many (cache_hilo self @ [(hilo_query a b, v)])"
  using assms by (auto simp: hilo_def Let_def split: sum.splits)

lemma hilo_hit_cache:
  assumes "map_of (cache_hilo self) (hilo_query a b) = Some w" "hilo self a b = Inr (v, self')"
  shows "v = w"
    and "cache_hilo self' =
      drop_if_too_many (AList.delete (hilo_query a b) (cache_hilo self) @ [(hilo_query a b, w)])"
  using assms by (auto simp: hilo_def Let_def)

lemma set_delete_subset: "set (AList.delete q c) \<subseteq> set c"
  by (auto simp: AList.delete_eq)

lemma hilo_cache_subset:
  assumes "hilo self a b = Inr (v, self')"
  shows "set (cache_hilo self') \<subseteq> insert (hilo_query a b, v) (set (cache_hilo self))"
proof (cases "map_of (cache_hilo self) (hilo_query a b)")
  case None
  have "set (cache_hilo self') \<subseteq> set (cache_hilo self @ [(hilo_query a b, v)])"
    unfolding hilo_miss(2) [OF None assms] by (rule set_drop_if_too_many)
  then show ?thesis by auto
next
  case (Some w)
  have "set (cache_hilo self') \<subseteq>
      set (AList.delete (hilo_query a b) (cache_hilo self) @ [(hilo_query a b, w)])"
    unfolding hilo_hit_cache(2) [OF Some assms] by (rule set_drop_if_too_many)
  moreover have "v = w" using Some assms by (rule hilo_hit_cache(1))
  ultimately show ?thesis using set_delete_subset [of "hilo_query a b" "cache_hilo self"] by auto
qed

lemma hilo_cache_ok:
  assumes "cache_ok self" "hilo self a b = Inr (v, self')"
  shows "cache_ok self'"
proof -
  have r: "u_hilo self (fst (hilo_query a b)) (snd (hilo_query a b)) = Inr v"
    using assms by (rule hilo_result)
  have eq: "u_hilo self' x0 x1 = u_hilo self x0 x1" for x0 x1
    using hilo_frame [OF assms(2)] u_hilo_cache_irrelevant by metis
  show ?thesis
    using assms(1) hilo_cache_subset [OF assms(2)] r
    by (auto simp: cache_ok_def list_all_iff eq)
qed

lemma init_cache_ok: "cache_ok (init_fields f)"
  by (simp add: cache_ok_def init_fields_def Let_def)

lemma init_columns_ok: "0 < ncols f \<Longrightarrow> columns_ok (init_fields f)"
  by (auto simp: columns_ok_def init_fields_def Let_def list_all_iff)






lemma loc_nil:
  assumes "x1 < x0 \<or> x1 < 0 \<or> int (length rs) \<le> x0"
  shows "loc (real_of_int x0) (real_of_int x1) rs = []"
proof -
  have "int (length (loc (real_of_int x0) (real_of_int x1) rs)) = 0"
    unfolding length_loc_int using assms by auto
  then show ?thesis by simp
qed

text \<open>
  Claim C8. A range with no row of the table in it (reversed, wholly before row 0 or wholly
  after the last row) makes \<^verbatim>\<open>_hilo\<close> return the zero tuple \<open>(0,0,0,0,0)\<close> and no
  error, whatever the columns are; \<^verbatim>\<open>hilo\<close> returns the same on a source whose cache
  agrees with its table.
\<close>

theorem hilo_empty_range_zero_tuple:
  "(no_rows self x0 x1 \<longrightarrow> u_hilo self x0 x1 = Inr zero_tuple)
   \<and> (cache_ok self \<and> no_rows self (fst (hilo_query a b)) (snd (hilo_query a b))
      \<longrightarrow> (\<exists>self'. hilo self a b = Inr (zero_tuple, self')))"
proof -
  have u: "u_hilo self y0 y1 = Inr zero_tuple" if "no_rows self y0 y1" for y0 y1
    using that by (simp add: no_rows_def len_def loc_nil u_hilo_empty)
  have "\<exists>self'. hilo self a b = Inr (zero_tuple, self')"
    if ok: "cache_ok self" and e: "no_rows self (fst (hilo_query a b)) (snd (hilo_query a b))"
  proof (cases "map_of (cache_hilo self) (hilo_query a b)")
    case None
    then show ?thesis using u [OF e] by (simp add: hilo_def Let_def)
  next
    case (Some w)
    have "u_hilo self (fst (hilo_query a b)) (snd (hilo_query a b)) = Inr w"
      using ok Some by (rule cache_ok_lookup)
    then have "w = zero_tuple" using u [OF e] by simp
    then show ?thesis using Some hilo_hit by blast
  qed
  then show ?thesis using u by blast
qed

lemma length_delete_distinct:
  assumes "distinct (map fst c)" "q \<in> fst ` set c"
  shows "Suc (length (AList.delete q c)) = length c"
  using assms
proof (induction c)
  case Nil
  then show ?case by simp
next
  case (Cons e c)
  show ?case
  proof (cases "fst e = q")
    case True
    then have "q \<notin> fst ` set c" using Cons.prems(1) by auto
    then have "AList.delete q c = c" by (simp add: AList.delete_id)
    with True show ?thesis by (cases e) simp
  next
    case False
    then have "q \<in> fst ` set c" using Cons.prems(2) by auto
    with Cons False show ?thesis by (cases e) auto
  qed
qed

lemma distinct_tl_keys: "distinct (map fst c) \<Longrightarrow> distinct (map fst (tl c))"
  by (cases c) auto

lemma distinct_append_new:
  "distinct (map fst c) \<Longrightarrow> q \<notin> fst ` set c \<Longrightarrow> distinct (map fst (c @ [(q, v)]))"
  by auto

lemma distinct_drop_if_too_many:
  "distinct (map fst c) \<Longrightarrow> distinct (map fst (drop_if_too_many c))"
  by (simp add: drop_if_too_many_def distinct_tl_keys)

lemma length_drop_if_too_many:
  "length c \<le> 101 \<Longrightarrow> length (drop_if_too_many c) \<le> 100"
  by (cases c) (auto simp: drop_if_too_many_def)

lemma last_drop_if_too_many: "last (drop_if_too_many (c @ [e])) = e"
  by (simp add: drop_if_too_many_append)

text \<open>
  Claim C2. A query on a cache of at most 100 entries leaves at most 100 entries, and the
  entry just asked for is the last (most recently used) one. On a hit the entry is moved to
  the end and nothing is dropped. On a miss with 100 entries held, the new entry is appended
  and exactly the first entry, the one touched longest ago, is dropped.
\<close>

theorem hilo_cache_lru:
  assumes "length (cache_hilo self) \<le> 100" and "distinct (map fst (cache_hilo self))"
    and "hilo self a b = Inr (v, self')"
  shows "length (cache_hilo self') \<le> 100
    \<and> distinct (map fst (cache_hilo self'))
    \<and> last (cache_hilo self') = (hilo_query a b, v)
    \<and> (hilo_query a b \<in> fst ` set (cache_hilo self) \<longrightarrow>
          map_of (cache_hilo self) (hilo_query a b) = Some v
        \<and> cache_hilo self' = AList.delete (hilo_query a b) (cache_hilo self) @ [(hilo_query a b, v)]
        \<and> length (cache_hilo self') = length (cache_hilo self))
    \<and> (hilo_query a b \<notin> fst ` set (cache_hilo self) \<and> length (cache_hilo self) < 100 \<longrightarrow>
          cache_hilo self' = cache_hilo self @ [(hilo_query a b, v)])
    \<and> (hilo_query a b \<notin> fst ` set (cache_hilo self) \<and> length (cache_hilo self) = 100 \<longrightarrow>
          cache_hilo self' = tl (cache_hilo self) @ [(hilo_query a b, v)])"
proof (cases "map_of (cache_hilo self) (hilo_query a b)")
  case None
  let ?q = "hilo_query a b" and ?c = "cache_hilo self"
  have new: "?q \<notin> fst ` set ?c"
    using None by (simp add: map_of_eq_None_iff)
  have c': "cache_hilo self' = drop_if_too_many (?c @ [(?q, v)])"
    using None assms(3) by (rule hilo_miss(2))
  have "length (cache_hilo self') \<le> 100"
    unfolding c' using assms(1) by (intro length_drop_if_too_many) simp
  moreover have "distinct (map fst (cache_hilo self'))"
    unfolding c' using assms(2) new by (intro distinct_drop_if_too_many distinct_append_new)
  moreover have "last (cache_hilo self') = (?q, v)"
    unfolding c' by (rule last_drop_if_too_many)
  moreover have "length ?c < 100 \<longrightarrow> cache_hilo self' = ?c @ [(?q, v)]"
    unfolding c' by (simp add: drop_if_too_many_append)
  moreover have "length ?c = 100 \<longrightarrow> cache_hilo self' = tl ?c @ [(?q, v)]"
    unfolding c' by (simp add: drop_if_too_many_append)
  ultimately show ?thesis using new by blast
next
  case (Some w)
  let ?q = "hilo_query a b" and ?c = "cache_hilo self"
  have old: "?q \<in> fst ` set ?c"
    using Some by (metis map_of_eq_None_iff option.distinct(1))
  have vw: "v = w" using Some assms(3) by (rule hilo_hit_cache(1))
  have len: "Suc (length (AList.delete ?q ?c)) = length ?c"
    using assms(2) old by (rule length_delete_distinct)
  then have small: "\<not> 100 \<le> length (AList.delete ?q ?c)"
    using assms(1) by linarith
  have "cache_hilo self' = drop_if_too_many (AList.delete ?q ?c @ [(?q, v)])"
    using hilo_hit_cache(2) [OF Some assms(3)] vw by simp
  then have c': "cache_hilo self' = AList.delete ?q ?c @ [(?q, v)]"
    using small by (simp only: drop_if_too_many_append if_False)
  have "length (cache_hilo self') = length ?c"
    unfolding c' using len by simp
  moreover have "distinct (map fst (cache_hilo self'))"
    unfolding c' using assms(2) delete_no_key [of ?q ?c]
    by (intro distinct_append_new) (simp_all add: distinct_delete)
  moreover have "last (cache_hilo self') = (?q, v)"
    unfolding c' by simp
  ultimately show ?thesis using old Some vw c' assms(1) by simp
qed

subsection \<open>Every source the program builds\<close>

lemma hilo_cache_inv:
  assumes "cache_inv self" and "hilo self a b = Inr (v, self')"
  shows "cache_inv self'"
proof -
  have "cache_ok self'"
    using assms by (auto simp: cache_inv_def intro: hilo_cache_ok)
  moreover have "length (cache_hilo self') \<le> 100 \<and> distinct (map fst (cache_hilo self'))"
  proof (cases "map_of (cache_hilo self) (hilo_query a b)")
    case None
    then have new: "hilo_query a b \<notin> fst ` set (cache_hilo self)"
      by (simp add: map_of_eq_None_iff)
    have c': "cache_hilo self' = drop_if_too_many (cache_hilo self @ [(hilo_query a b, v)])"
      using None assms(2) by (rule hilo_miss(2))
    show ?thesis
      unfolding c' using assms(1) new
      by (auto simp: cache_inv_def intro!: length_drop_if_too_many distinct_drop_if_too_many)
  next
    case (Some w)
    then have old: "hilo_query a b \<in> fst ` set (cache_hilo self)"
      by (metis map_of_eq_None_iff option.distinct(1))
    have d: "distinct (map fst (cache_hilo self))" using assms(1) by (simp add: cache_inv_def)
    have len: "Suc (length (AList.delete (hilo_query a b) (cache_hilo self))) = length (cache_hilo self)"
      using d old by (rule length_delete_distinct)
    have c': "cache_hilo self' = drop_if_too_many
        (AList.delete (hilo_query a b) (cache_hilo self) @ [(hilo_query a b, w)])"
      using Some assms(2) by (rule hilo_hit_cache(2))
    have "distinct (map fst (AList.delete (hilo_query a b) (cache_hilo self) @ [(hilo_query a b, w)]))"
      using d delete_no_key [of "hilo_query a b" "cache_hilo self"]
      by (intro distinct_append_new) (simp_all add: distinct_delete)
    then show ?thesis
      unfolding c' using assms(1) len
      by (auto simp: cache_inv_def intro!: length_drop_if_too_many distinct_drop_if_too_many)
  qed
  ultimately show ?thesis by (simp add: cache_inv_def)
qed

lemma queries_inv:
  assumes "cache_inv self"
  shows "cache_inv (queries self qs) \<and> df (queries self qs) = df self
    \<and> scale_cols (queries self qs) = scale_cols self"
  using assms
proof (induction qs arbitrary: self)
  case Nil
  then show ?case by simp
next
  case (Cons q qs)
  show ?case
  proof (cases "hilo self (fst q) (snd q)")
    case (Inl e)
    then show ?thesis using Cons by simp
  next
    case (Inr r)
    obtain v self' where r: "r = (v, self')" by (cases r)
    have h: "hilo self (fst q) (snd q) = Inr (v, self')" using Inr r by simp
    have i: "cache_inv self'" using Cons.prems h by (rule hilo_cache_inv)
    have "self' = self\<lparr>cache_hilo := cache_hilo self'\<rparr>" using h by (rule hilo_frame)
    then have "df self' = df self" "scale_cols self' = scale_cols self"
      by (metis PandasDataSource.select_convs(1) PandasDataSource.surjective
            PandasDataSource.update_convs(4),
          metis PandasDataSource.select_convs(3) PandasDataSource.surjective
            PandasDataSource.update_convs(4))
    then show ?thesis using Cons.IH [OF i] h by simp
  qed
qed

lemma init_then_queries:
  "cache_ok (queries (init_fields f) qs)"
  "length (cache_hilo (queries (init_fields f) qs)) \<le> 100"
  "distinct (map fst (cache_hilo (queries (init_fields f) qs)))"
  "df (queries (init_fields f) qs) = f"
  "0 < ncols f \<Longrightarrow> columns_ok (queries (init_fields f) qs)"
proof -
  have i: "cache_inv (init_fields f)"
    by (simp add: cache_inv_def init_cache_ok) (simp add: init_fields_def Let_def)
  note q = queries_inv [OF i, of qs]
  show "cache_ok (queries (init_fields f) qs)"
    "length (cache_hilo (queries (init_fields f) qs)) \<le> 100"
    "distinct (map fst (cache_hilo (queries (init_fields f) qs)))"
    using q by (simp_all add: cache_inv_def)
  show d: "df (queries (init_fields f) qs) = f"
    using q by (simp add: init_fields_def Let_def)
  show "columns_ok (queries (init_fields f) qs)" if "0 < ncols f"
    using init_columns_ok [OF that] q by (simp add: columns_ok_def)
qed

subsection \<open>A small table, queried\<close>

lemma example_columns_ok: "columns_ok (init_fields example_frame)"
  by (simp add: columns_ok_def init_fields_def example_frame_def ncols_def u_has_timecol_def Let_def)

lemma loc_Cons_eval:
  "loc x0 x1 rs = map snd (filter (\<lambda>p. x0 \<le> real (fst p) \<and> real (fst p) \<le> x1) (enumerate 0 rs))"
  by (simp add: loc_def case_prod_unfold)

lemma example_hilo:
  "hilo (init_fields example_frame) (1/2) 5 =
    Inr ((Num 20, Num 30, Num 7, Num 7, 2),
      (init_fields example_frame)\<lparr>cache_hilo := [((1, 5), (Num 20, Num 30, Num 7, Num 7, 2))]\<rparr>)"
  by (simp add: hilo_def hilo_query_def py_int_def u_hilo_def loc_Cons_eval init_fields_def
      example_frame_def ncols_def u_has_timecol_def Let_def drop_if_too_many_def nanmax_def nanmin_def)


theorem hilo_empty_range_zero_tuple_witness:
  "no_rows (init_fields example_frame) 7 9
   \<and> u_hilo (init_fields example_frame) 7 9 = Inr zero_tuple
   \<and> cache_ok (init_fields example_frame)
   \<and> hilo_query (5/2) 1 = (3, 1)
   \<and> no_rows (init_fields example_frame) 3 1
   \<and> (\<exists>self'. hilo (init_fields example_frame) (5/2) 1 = Inr (zero_tuple, self'))"
proof -
  let ?S = "init_fields example_frame"
  have n: "len (df ?S) = 3"
    by (simp add: len_def init_fields_def example_frame_def Let_def)
  have e1: "no_rows ?S 7 9"
    by (simp add: no_rows_def n)
  have ok: "cache_ok ?S" by (rule init_cache_ok)
  have q: "hilo_query (5/2) 1 = (3, 1)"
    by (simp add: hilo_query_def py_int_def)
  have e2: "no_rows ?S (fst (hilo_query (5/2) 1)) (snd (hilo_query (5/2) 1))"
    by (simp add: q no_rows_def)
  from hilo_empty_range_zero_tuple [of ?S 7 9 "5/2" 1] e1 ok e2
  have "u_hilo ?S 7 9 = Inr zero_tuple" and "\<exists>self'. hilo ?S (5/2) 1 = Inr (zero_tuple, self')"
    by blast+
  with e1 ok q e2 show ?thesis by simp
qed

lemma full_cache_props:
  "length full_cache = 100" "distinct (map fst full_cache)" "(1, 5) \<notin> fst ` set full_cache"
  "hd full_cache = ((3, 3), zero_tuple)"
  by (auto simp: full_cache_def distinct_map inj_on_def comp_def upt_conv_Cons)

theorem hilo_cache_lru_witness:
  "length full_cache \<le> 100 \<and> distinct (map fst full_cache)
   \<and> hd full_cache = ((3, 3), zero_tuple)
   \<and> (\<exists>v self'. hilo ((init_fields example_frame)\<lparr>cache_hilo := full_cache\<rparr>) (1/2) 5 = Inr (v, self')
         \<and> cache_hilo self' = tl full_cache @ [((1, 5), v)]
         \<and> length (cache_hilo self') \<le> 100)
   \<and> (\<exists>self'. hilo ((init_fields example_frame)\<lparr>cache_hilo :=
            [((1, 5), (Num 20, Num 30, Num 7, Num 7, 2)), ((7, 9), zero_tuple)]\<rparr>) (1/2) 5
          = Inr ((Num 20, Num 30, Num 7, Num 7, 2), self')
         \<and> cache_hilo self' = [((7, 9), zero_tuple), ((1, 5), (Num 20, Num 30, Num 7, Num 7, 2))])"
proof -
  let ?S = "(init_fields example_frame)\<lparr>cache_hilo := full_cache\<rparr>"
  let ?v = "(Num 20, Num 30, Num 7, Num 7, 2::nat)"
  let ?T = "(init_fields example_frame)\<lparr>cache_hilo := [((1, 5), ?v), ((7, 9), zero_tuple)]\<rparr>"
  have q: "hilo_query (1/2) 5 = (1, 5)"
    by (simp add: hilo_query_def py_int_def)
  have "columns_ok ?S"
    using example_columns_ok by (simp add: columns_ok_def)
  then obtain v self' where h: "hilo ?S (1/2) 5 = Inr (v, self')"
    using hilo_returns by blast
  have l: "length (cache_hilo ?S) \<le> 100" and d: "distinct (map fst (cache_hilo ?S))"
    by (simp_all add: full_cache_props)
  from hilo_cache_lru [OF l d h]
  have "cache_hilo self' = tl full_cache @ [((1, 5), v)]" and "length (cache_hilo self') \<le> 100"
    by (simp_all add: q full_cache_props)
  with h have first: "\<exists>v self'. hilo ?S (1/2) 5 = Inr (v, self')
      \<and> cache_hilo self' = tl full_cache @ [((1, 5), v)] \<and> length (cache_hilo self') \<le> 100"
    by blast
  have l2: "length (cache_hilo ?T) \<le> 100" and d2: "distinct (map fst (cache_hilo ?T))"
    by simp_all
  obtain self'' where h2: "hilo ?T (1/2) 5 = Inr (?v, self'')"
    using hilo_hit [of ?T "1/2" 5 ?v] by (auto simp: q)
  from hilo_cache_lru [OF l2 d2 h2]
  have "cache_hilo self'' = [((7, 9), zero_tuple), ((1, 5), ?v)]"
    by (simp add: q)
  with h2 have second: "\<exists>self'. hilo ?T (1/2) 5 = Inr (?v, self')
      \<and> cache_hilo self' = [((7, 9), zero_tuple), ((1, 5), ?v)]"
    by blast
  show ?thesis
    using first second by (simp add: full_cache_props)
qed

section \<open>Properties of PandasDataSource: rows for drawing\<close>

subsection \<open>Row counts under level of detail\<close>

lemma every_step_arith:
  fixes m k :: nat
  assumes "0 < k"
  shows "Suc ((m - (k - 1) + k - 1) div k) = (Suc m + k - 1) div k"
proof (cases "k - 1 \<le> m")
  case True
  then have a: "m - (k - 1) + k - 1 = m" using assms by linarith
  have b: "Suc m + k - 1 = m + k" by simp
  have "(m + k) div k = Suc (m div k)" using assms by simp
  then show ?thesis by (simp only: a b)
next
  case False
  then have a: "m - (k - 1) + k - 1 = k - 1" by linarith
  have b: "Suc m + k - 1 = m + k" by simp
  have "m < k" using False by linarith
  then have "(m + k) div k = 1" "(k - 1) div k = 0" using assms by simp_all
  then show ?thesis by (simp only: a b)
qed

lemma length_every:
  "0 < k \<Longrightarrow> length (every k xs) = (length xs + k - 1) div k"
proof (induction k xs rule: every.induct)
  case (1 k)
  then show ?case by simp
next
  case (2 k x xs)
  have k: "0 < k" by fact
  have "length (every k (drop (k - 1) xs)) = (length xs - (k - 1) + k - 1) div k"
    using 2 by simp
  then have "length (every k (x # xs)) = Suc ((length xs - (k - 1) + k - 1) div k)"
    by simp
  also have "\<dots> = (Suc (length xs) + k - 1) div k"
    using k by (rule every_step_arith)
  finally show ?case by simp
qed

lemma lod_stride_bounds:
  fixes n :: nat
  assumes "3000 < n"
  defines "k \<equiv> n div 3000"
  shows "0 < k" and "3000 \<le> (n + k - 1) div k" and "(n + k - 1) div k < 6000"
    and "(n + k - 1) div k \<le> n" and "(n + k - 1) div k \<le> 3000 \<longleftrightarrow> 3000 dvd n"
proof -
  define r where "r = n mod 3000"
  have n: "n = 3000 * k + r" and r: "r < 3000"
    by (simp_all add: k_def r_def)
  show k: "0 < k" using assms(1) by (simp add: k_def div_greater_zero_iff)
  have up: "n + k - 1 < 6000 * k"
    using n r k by linarith
  have lo: "3000 * k \<le> n + k - 1"
    using n k by linarith
  show "3000 \<le> (n + k - 1) div k"
    using lo k by (simp add: less_eq_div_iff_mult_less_eq mult.commute)
  show "(n + k - 1) div k < 6000"
    using up k by (simp add: div_less_iff_less_mult mult.commute)
  have "n + k - 1 \<le> n * k"
  proof -
    have "n + k - 1 \<le> n + n * (k - 1)"
      using k assms(1) by (cases k) auto
    also have "\<dots> = n * k" using k by (cases k) (auto simp: algebra_simps)
    finally show ?thesis .
  qed
  then have "(n + k - 1) div k \<le> (n * k) div k"
    by (rule div_le_mono)
  then show "(n + k - 1) div k \<le> n" using k by simp
  show "(n + k - 1) div k \<le> 3000 \<longleftrightarrow> 3000 dvd n"
  proof
    assume "(n + k - 1) div k \<le> 3000"
    then have "(n + k - 1) div k < 3001" by simp
    then have "n + k - 1 < 3001 * k"
      using k by (simp add: div_less_iff_less_mult mult.commute)
    then have "r = 0" using n k r by (cases "r = 0") auto
    then show "3000 dvd n" using n by simp
  next
    assume "3000 dvd n"
    then have "r = 0" by (simp add: r_def)
    then have "n + k - 1 < 3001 * k" using n k by linarith
    then have "(n + k - 1) div k < 3001"
      using k by (simp add: div_less_iff_less_mult mult.commute)
    then show "(n + k - 1) div k \<le> 3000" by simp
  qed
qed

subsection \<open>Writes stay in the copy\<close>

lemma length_get_col: "length (get_col self d i) = df_len d"
  by (cases d) simp_all

lemma set_col_fresh:
  assumes "is_fresh d" "length vals = df_len d"
  shows "fst (set_col i vals (self, d)) = self"
    and "is_fresh (snd (set_col i vals (self, d)))"
    and "df_len (snd (set_col i vals (self, d))) = df_len d"
  using assms by (cases d; simp)+

lemma invxform_column_fresh:
  assumes "is_fresh (snd st)"
  shows "fst (snd (invxform_column ysc i st)) = fst st"
    and "is_fresh (snd (snd (invxform_column ysc i st)))"
    and "df_len (snd (snd (invxform_column ysc i st))) = df_len (snd st)"
    and "length (fst (invxform_column ysc i st)) = df_len (snd st)"
  using assms
  by (cases st; simp add: invxform_column_def Let_def set_col_fresh length_get_col)+

lemma rescale_column_fresh:
  assumes "is_fresh (snd st)"
  shows "fst (rescale_column ysc i st) = fst st"
    and "is_fresh (snd (rescale_column ysc i st))"
    and "df_len (snd (rescale_column ysc i st)) = df_len (snd st)"
proof -
  obtain y st' where e: "invxform_column ysc i st = (y, st')"
    by (cases "invxform_column ysc i st")
  have p: "fst st' = fst st" "is_fresh (snd st')" "df_len (snd st') = df_len (snd st)"
    "length y = df_len (snd st)"
    using invxform_column_fresh [OF assms, of ysc i] by (simp_all add: e)
  obtain s d where st': "st' = (s, d)" by (cases st')
  have q: "fst (set_col i y st') = fst st" "is_fresh (snd (set_col i y st'))"
    "df_len (snd (set_col i y st')) = df_len (snd st)"
    using p set_col_fresh [of d y i s] by (simp_all add: st')
  show "fst (rescale_column ysc i st) = fst st"
    and "is_fresh (snd (rescale_column ysc i st))"
    and "df_len (snd (rescale_column ysc i st)) = df_len (snd st)"
    using q assms by (simp_all add: rescale_column_def e)
qed

lemma fold_rescale_fresh:
  assumes "is_fresh (snd st)"
  shows "fst (fold (rescale_column ysc) is st) = fst st
    \<and> is_fresh (snd (fold (rescale_column ysc) is st))
    \<and> df_len (snd (fold (rescale_column ysc) is st)) = df_len (snd st)"
  using assms
proof (induction "is" arbitrary: st)
  case Nil
  then show ?case by simp
next
  case (Cons i "is")
  have "is_fresh (snd (rescale_column ysc i st))"
    using Cons.prems by (rule rescale_column_fresh)
  from Cons.IH [OF this] show ?case
    using rescale_column_fresh [OF Cons.prems, of ysc i] by simp
qed

lemma copy_fresh: "is_fresh (copy self d)" "df_len (copy self d) = df_len d"
  by (cases d; simp)+

lemma iloc_cols_len: "iloc_cols colidxs d = Inr d' \<Longrightarrow> df_len d' = df_len d"
  by (cases d) (auto split: if_splits)

lemma iloc_cols_returns:
  "list_all (\<lambda>c. c < df_ncols d) colidxs \<Longrightarrow> \<exists>d'. iloc_cols colidxs d = Inr d'"
  by (cases d) (auto simp: list_all_iff list_ex_iff)

lemma iloc_step_len:
  "0 < k \<Longrightarrow> \<exists>d'. iloc_step k d = Inr d' \<and> df_len d' = (df_len d + k - 1) div k
     \<and> df_ncols d' = df_ncols d"
  by (cases d) (simp_all add: length_every)

lemma u_rows_result:
  assumes "u_rows self d colcnt ysc use_lod = Inr (dfr, self')"
  shows "self' = self" and "df_len dfr = lod_rows use_lod (df_len d)"
proof -
  obtain d1 where d1: "(if use_lod \<and> df_len d > lod_candles
      then iloc_step (df_len d div lod_candles) d else Inr d) = Inr d1"
    using assms by (auto simp: u_rows_def split: sum.splits)
  have len1: "df_len d1 = lod_rows use_lod (df_len d)"
  proof (cases "use_lod \<and> df_len d > lod_candles")
    case True
    then have "0 < df_len d div lod_candles"
      by (simp add: lod_candles_def div_greater_zero_iff)
    from iloc_step_len [OF this, of d] d1 True show ?thesis
      by (auto simp: lod_rows_def)
  next
    case False
    then show ?thesis using d1 by (auto simp: lod_rows_def)
  qed
  obtain d2 where d2: "iloc_cols (colidxs_of self colcnt) d1 = Inr d2"
    using assms d1 by (auto simp: u_rows_def Let_def colidxs_of_def split: sum.splits)
  have len2: "df_len d2 = df_len d1" using d2 by (rule iloc_cols_len)
  let ?st = "fold (rescale_column ysc) [1 ..< colcnt - 1 + 1] (self, copy self d2)"
  have r: "(dfr, self') = (if scaletype ysc = ''log'' \<or> scalef ysc \<noteq> 1
      then (snd ?st, fst ?st) else (d2, self))"
    using assms d1 d2 by (auto simp: u_rows_def Let_def colidxs_of_def split: if_splits)
  have f: "fst ?st = self \<and> is_fresh (snd ?st) \<and> df_len (snd ?st) = df_len d2"
    using fold_rescale_fresh [of "(self, copy self d2)" ysc "[1 ..< colcnt - 1 + 1]"]
    by (simp add: copy_fresh)
  show "self' = self" using r f by (auto split: if_splits)
  show "df_len dfr = lod_rows use_lod (df_len d)"
    using r f len1 len2 by (auto split: if_splits)
qed

lemma u_rows_returns:
  assumes "list_all (\<lambda>c. c < df_ncols d) (colidxs_of self colcnt)"
  shows "\<exists>dfr self'. u_rows self d colcnt ysc use_lod = Inr (dfr, self')"
proof -
  obtain d1 where d1: "(if use_lod \<and> df_len d > lod_candles
      then iloc_step (df_len d div lod_candles) d else Inr d) = Inr d1"
    and n1: "df_ncols d1 = df_ncols d"
  proof (cases "use_lod \<and> df_len d > lod_candles")
    case True
    then have "0 < df_len d div lod_candles"
      by (simp add: lod_candles_def div_greater_zero_iff)
    from iloc_step_len [OF this, of d] True that show ?thesis by auto
  next
    case False
    then show ?thesis using that by auto
  qed
  obtain d2 where d2: "iloc_cols (colidxs_of self colcnt) d1 = Inr d2"
    using iloc_cols_returns [of d1 "colidxs_of self colcnt"] assms n1 by auto
  show ?thesis
    using d1 d2 by (simp add: u_rows_def Let_def colidxs_of_def)
qed

text \<open>
  Claim C3, as the code has it. \<^verbatim>\<open>_rows\<close> returns, for every input slice whose columns
  exist; without level of detail, or with at most 3000 rows, the output has as many rows as
  the input. With level of detail and \<open>n > 3000\<close> rows the stride is \<open>n div 3000\<close> and the
  output has \<open>\<lceil>n / (n div 3000)\<rceil>\<close> rows: at least 3000, fewer than 6000, never more than
  \<open>n\<close>, and at most 3000 only when 3000 divides \<open>n\<close>.
\<close>

theorem u_rows_lod_count:
  assumes "list_all (\<lambda>c. c < df_ncols d) (colidxs_of self colcnt)"
  shows "\<exists>dfr self'. u_rows self d colcnt ysc use_lod = Inr (dfr, self')
    \<and> df_len dfr = lod_rows use_lod (df_len d)
    \<and> (\<not> (use_lod \<and> lod_candles < df_len d) \<longrightarrow> df_len dfr = df_len d)
    \<and> (use_lod \<and> lod_candles < df_len d \<longrightarrow>
          lod_candles \<le> df_len dfr \<and> df_len dfr < 2 * lod_candles \<and> df_len dfr \<le> df_len d
        \<and> (df_len dfr \<le> lod_candles \<longleftrightarrow> lod_candles dvd df_len d))"
proof -
  obtain dfr self' where r: "u_rows self d colcnt ysc use_lod = Inr (dfr, self')"
    using u_rows_returns [OF assms] by blast
  have n: "df_len dfr = lod_rows use_lod (df_len d)"
    using r by (rule u_rows_result(2))
  have small: "\<not> (use_lod \<and> lod_candles < df_len d) \<longrightarrow> df_len dfr = df_len d"
    unfolding n by (simp add: lod_rows_def)
  have big: "lod_candles \<le> df_len dfr \<and> df_len dfr < 2 * lod_candles \<and> df_len dfr \<le> df_len d
        \<and> (df_len dfr \<le> lod_candles \<longleftrightarrow> lod_candles dvd df_len d)"
    if "use_lod \<and> lod_candles < df_len d"
  proof -
    have l: "3000 < df_len d" using that by (simp add: lod_candles_def)
    have e: "df_len dfr = (df_len d + df_len d div 3000 - 1) div (df_len d div 3000)"
      unfolding n using that by (simp add: lod_rows_def lod_candles_def)
    show ?thesis
      unfolding e lod_candles_def using lod_stride_bounds(2-5) [OF l] by simp
  qed
  show ?thesis using r n small big by blast
qed

lemma every_one: "every (Suc 0) xs = xs"
  by (induction xs) simp_all

lemma loc_all:
  assumes "x0 \<le> 0" "real (length rs) - 1 \<le> x1"
  shows "loc x0 x1 rs = rs"
proof -
  have "\<forall>p \<in> set (enumerate 0 rs). x0 \<le> real (fst p) \<and> real (fst p) \<le> x1"
  proof
    fix p assume "p \<in> set (enumerate 0 rs)"
    then have "fst p < length rs" by (simp add: in_set_enumerate_eq)
    then show "x0 \<le> real (fst p) \<and> real (fst p) \<le> x1" using assms by auto
  qed
  then have "filter (\<lambda>(i, r). x0 \<le> real i \<and> real i \<le> x1) (enumerate 0 rs) = enumerate 0 rs"
    by (auto simp: filter_id_conv)
  then show ?thesis by (simp add: loc_def)
qed

lemma long_frame_facts:
  "len (df (init_fields long_frame)) = 3001" "ncols (df (init_fields long_frame)) = 2"
  "col_data_offset (init_fields long_frame) = 1"
  by (simp_all add: init_fields_def long_frame_def len_def ncols_def u_has_timecol_def Let_def)

lemma upt_0_2: "[0..<2] = [0, Suc 0]" and upt_1_2: "[Suc 0..<2] = [Suc 0]"
  by (simp_all add: upt_conv_Cons)

text \<open>
  The bound of 3000 rows does not hold: a slice of 3001 rows has stride \<open>3001 div 3000 = 1\<close>
  and comes back whole.
\<close>

theorem rows_lod_counterexample:
  "rows (init_fields long_frame) 2 0 3000 linear1 True
     = Inr ((View [0..<3001] [0, 1], 3001), init_fields long_frame)
   \<and> df_len (View [0..<3001] [0, 1]) = 3001 \<and> lod_candles < 3001"
proof -
  have l: "loc 0 3000 [0..<3001] = [0..<3001]"
    by (rule loc_all) simp_all
  have d: "(3001::nat) div 3000 = 1" by simp
  have "u_rows (init_fields long_frame) (View [0..<3001] [0, 1]) 2 linear1 True
      = Inr (View [0..<3001] [0, 1], init_fields long_frame)"
    by (simp add: u_rows_def lod_candles_def linear1_def long_frame_facts every_one upt_1_2 d)
  then show ?thesis
    by (simp add: rows_def long_frame_facts l upt_0_2 lod_candles_def)
qed

theorem u_rows_lod_count_witness:
  "list_all (\<lambda>c. c < df_ncols (View [0..<3001] [0, 1])) (colidxs_of (init_fields long_frame) 2)
   \<and> (\<exists>dfr self'. u_rows (init_fields long_frame) (View [0..<3001] [0, 1]) 2 linear1 True
          = Inr (dfr, self')
        \<and> df_len dfr = 3001 \<and> lod_candles \<le> df_len dfr \<and> df_len dfr < 2 * lod_candles)
   \<and> (\<exists>dfr self'. u_rows (init_fields long_frame) (View [0..<3000] [0, 1]) 2 linear1 True
          = Inr (dfr, self')
        \<and> df_len dfr = 3000)"
proof -
  let ?S = "init_fields long_frame"
  have c: "list_all (\<lambda>c. c < df_ncols (View [0..<3001] [0, 1])) (colidxs_of ?S 2)"
    and c': "list_all (\<lambda>c. c < df_ncols (View [0..<3000] [0, 1])) (colidxs_of ?S 2)"
    by (simp_all add: colidxs_of_def long_frame_facts upt_1_2)
  have n: "lod_rows True (df_len (View [0..<3001] [0, 1])) = 3001"
    and n': "lod_rows True (df_len (View [0..<3000] [0, 1])) = 3000"
    by (simp_all add: lod_rows_def lod_candles_def)
  from u_rows_lod_count [OF c, of linear1 True]
  have a: "\<exists>dfr self'. u_rows ?S (View [0..<3001] [0, 1]) 2 linear1 True = Inr (dfr, self')
        \<and> df_len dfr = 3001 \<and> lod_candles \<le> df_len dfr \<and> df_len dfr < 2 * lod_candles"
    unfolding n by (auto simp: lod_candles_def)
  from u_rows_lod_count [OF c', of linear1 True]
  have b: "\<exists>dfr self'. u_rows ?S (View [0..<3000] [0, 1]) 2 linear1 True = Inr (dfr, self')
        \<and> df_len dfr = 3000"
    unfolding n' by auto
  show ?thesis using c a b by blast
qed

text \<open>A write through a view does change the source's table.\<close>

lemma set_col_view_writes_table:
  "df (fst (set_col 1 [Num 0] (init_fields example_frame, View [0] [0, 1])))
    = \<lparr>dtypes = [Numeric, Numeric], body = [[Num 10, Num 0], [Num 20, Num 7], [Num 30, NaN]],
        columns = [''time'', ''price'']\<rparr>"
  by (simp add: init_fields_def example_frame_def write_cell_def Let_def)

lemma rows_frame:
  assumes "rows self colcnt x0 x1 ysc use_lod = Inr (r, self')"
  shows "self' = self"
proof -
  let ?d = "View (loc x0 x1 [0 ..< len (df self)]) [0 ..< ncols (df self)]"
  obtain dfr where "u_rows self ?d colcnt ysc use_lod = Inr (dfr, self')"
    using assms by (auto simp: rows_def Let_def split: sum.splits)
  then show ?thesis by (rule u_rows_result(1))
qed

lemma u_rows_fresh:
  assumes "u_rows self d colcnt ysc use_lod = Inr (dfr, self')"
    and "scaletype ysc = ''log'' \<or> scalef ysc \<noteq> 1"
  shows "is_fresh dfr"
proof -
  obtain d1 d2 where
    "dfr = snd (fold (rescale_column ysc) [1 ..< colcnt - 1 + 1] (self, copy self d2))"
    using assms by (auto simp: u_rows_def Let_def split: sum.splits if_splits)
  then show ?thesis
    using fold_rescale_fresh [of "(self, copy self d2)" ysc "[1 ..< colcnt - 1 + 1]"]
    by (simp add: copy_fresh)
qed

text \<open>
  Claim C10. \<^verbatim>\<open>hilo\<close> returns the source object with nothing but its cache changed, and
  \<^verbatim>\<open>_rows\<close> and \<^verbatim>\<open>rows\<close> return it unchanged: whenever the scale is not the identity
  the frame that is rescaled is a copy with memory of its own, so no write reaches the
  table. (An exception is raised only before the first write.)
\<close>

theorem queries_leave_table:
  "(hilo self a b = Inr (v, s1) \<longrightarrow>
      s1 = self\<lparr>cache_hilo := cache_hilo s1\<rparr> \<and> df s1 = df self)
   \<and> (u_rows self d colcnt ysc use_lod = Inr (dfr, s2) \<longrightarrow>
      s2 = self \<and> (scaletype ysc = ''log'' \<or> scalef ysc \<noteq> 1 \<longrightarrow> is_fresh dfr))
   \<and> (rows self colcnt x0 x1 ysc use_lod = Inr (r, s3) \<longrightarrow> s3 = self)"
proof -
  have "s1 = self\<lparr>cache_hilo := cache_hilo s1\<rparr> \<and> df s1 = df self"
    if h: "hilo self a b = Inr (v, s1)"
  proof -
    have e: "s1 = self\<lparr>cache_hilo := cache_hilo s1\<rparr>" using h by (rule hilo_frame)
    have "df (self\<lparr>cache_hilo := cache_hilo s1\<rparr>) = df self" by simp
    with e show ?thesis by simp
  qed
  moreover have "s2 = self \<and> (scaletype ysc = ''log'' \<or> scalef ysc \<noteq> 1 \<longrightarrow> is_fresh dfr)"
    if "u_rows self d colcnt ysc use_lod = Inr (dfr, s2)"
    using that u_rows_result(1) u_rows_fresh by blast
  moreover have "s3 = self" if "rows self colcnt x0 x1 ysc use_lod = Inr (r, s3)"
    using that by (rule rows_frame)
  ultimately show ?thesis by blast
qed

lemma example_facts:
  "len (df (init_fields example_frame)) = 3" "ncols (df (init_fields example_frame)) = 2"
  "col_data_offset (init_fields example_frame) = 1"
  by (simp_all add: init_fields_def example_frame_def len_def ncols_def u_has_timecol_def Let_def)

lemma example_u_rows:
  "u_rows (init_fields example_frame) (View [0, 1, 2] [0, 1]) 2 halved True
    = Inr (Fresh example_halved, init_fields example_frame)"
  by (simp add: u_rows_def lod_candles_def halved_def example_facts upt_1_2
      rescale_column_def invxform_column_def Let_def example_halved_def)
    (simp add: init_fields_def example_frame_def Let_def)

lemma example_rows:
  "rows (init_fields example_frame) 2 0 5 halved True
    = Inr ((Fresh example_halved, 3), init_fields example_frame)"
proof -
  have "loc 0 5 [0..<3] = [0, 1, 2]"
    by (simp add: loc_Cons_eval upt_conv_Cons)
  then show ?thesis
    using example_u_rows by (simp add: rows_def example_facts upt_0_2)
qed

theorem queries_leave_table_witness:
  "hilo (init_fields example_frame) (1/2) 5 =
      Inr ((Num 20, Num 30, Num 7, Num 7, 2),
        (init_fields example_frame)\<lparr>cache_hilo := [((1, 5), (Num 20, Num 30, Num 7, Num 7, 2))]\<rparr>)
   \<and> df ((init_fields example_frame)\<lparr>cache_hilo := [((1, 5), (Num 20, Num 30, Num 7, Num 7, 2))]\<rparr>)
       = df (init_fields example_frame)
   \<and> u_rows (init_fields example_frame) (View [0, 1, 2] [0, 1]) 2 halved True
       = Inr (Fresh example_halved, init_fields example_frame)
   \<and> rows (init_fields example_frame) 2 0 5 halved True
       = Inr ((Fresh example_halved, 3), init_fields example_frame)
   \<and> is_fresh (Fresh example_halved)
   \<and> df (init_fields example_frame) = example_frame"
proof -
  note t = queries_leave_table [of "init_fields example_frame" "1/2" 5
      "(Num 20, Num 30, Num 7, Num 7, 2)"
      "(init_fields example_frame)\<lparr>cache_hilo := [((1, 5), (Num 20, Num 30, Num 7, Num 7, 2))]\<rparr>"
      "View [0, 1, 2] [0, 1]" 2 halved True "Fresh example_halved" "init_fields example_frame"
      0 5 "(Fresh example_halved, 3)" "init_fields example_frame"]
  have "df (init_fields example_frame) = example_frame"
    by (simp add: init_fields_def Let_def)
  with t show ?thesis
    using example_hilo example_u_rows example_rows by simp
qed

section \<open>Properties of FinViewBox: the visible range\<close>

subsection \<open>Rounding to the nearest double\<close>

lemma py_round_int: "py_round (of_int k) = k"
  by (simp add: py_round_def)

lemma py_round_near: "\<bar>x - of_int n\<bar> < 1/2 \<Longrightarrow> py_round x = n"
  unfolding py_round_def Let_def
  by (auto simp: abs_if split: if_splits; linarith)

lemma py_round_err: "\<bar>of_int (py_round x) - x\<bar> \<le> 1/2"
  unfolding py_round_def Let_def
  by (auto simp: abs_if split: if_splits; linarith)

lemma py_round_tie: "x - of_int n = 1/2 \<Longrightarrow> py_round x = (if even n then n else n + 1)"
proof -
  assume a: "x - of_int n = 1/2"
  then have "\<lfloor>x\<rfloor> = n" by linarith
  then show ?thesis using a by (simp add: py_round_def Let_def)
qed

lemma py_round_neg: "py_round (- x) = - py_round x"
proof -
  let ?f = "\<lfloor>x\<rfloor>"
  let ?d = "x - of_int ?f"
  have d: "0 \<le> ?d" "?d < 1" by linarith+
  consider "?d < 1/2" | "1/2 < ?d" | "?d = 1/2" by linarith
  then show ?thesis
  proof cases
    case 1
    then have a: "py_round x = ?f" by (simp add: py_round_def Let_def)
    have "\<bar>- x - of_int (- ?f)\<bar> < 1/2" using 1 d by simp
    from py_round_near [OF this] a show ?thesis by simp
  next
    case 2
    then have a: "py_round x = ?f + 1" by (simp add: py_round_def Let_def)
    have "\<bar>- x - of_int (- (?f + 1))\<bar> < 1/2" using 2 d by simp
    from py_round_near [OF this] a show ?thesis by simp
  next
    case 3
    then have a: "py_round x = (if even ?f then ?f else ?f + 1)" by (rule py_round_tie)
    have "- x - of_int (- ?f - 1) = 1/2" using 3 by simp
    from py_round_tie [OF this] a show ?thesis by auto
  qed
qed

lemma py_round_mono: "x \<le> y \<Longrightarrow> py_round x \<le> py_round y"
proof (rule ccontr)
  assume xy: "x \<le> y" and "\<not> py_round x \<le> py_round y"
  then have lt: "py_round y + 1 \<le> py_round x" by simp
  then have r: "real_of_int (py_round y) + 1 \<le> real_of_int (py_round x)"
    by (metis of_int_1 of_int_add of_int_le_iff)
  have ex: "real_of_int (py_round x) - 1/2 \<le> x" using py_round_err [of x] by linarith
  have ey: "y \<le> real_of_int (py_round y) + 1/2" using py_round_err [of y] by linarith
  from r ex ey xy have "x = y" by linarith
  with lt show False by simp
qed

lemma py_round_nonneg: "0 \<le> x \<Longrightarrow> 0 \<le> py_round x"
  using py_round_mono [of 0 x] py_round_int [of 0] by simp

lemma powr_powi: "(2::real) powr real_of_int k = 2 powi k"
  by (rule powr_real_of_int') simp_all

lemma log2_floor_iff:
  assumes "0 < y"
  shows "\<lfloor>log 2 y\<rfloor> = e \<longleftrightarrow> 2 powi e \<le> y \<and> y < 2 powi (e + 1)"
proof -
  have "\<lfloor>log 2 y\<rfloor> = e \<longleftrightarrow> 2 powr real_of_int e \<le> y \<and> y < 2 powr real_of_int (e + 1)"
    using assms by (rule floor_log_eq_powr_iff) simp
  then show ?thesis unfolding powr_powi .
qed

lemma log2_floor:
  assumes "0 < y"
  shows "2 powi \<lfloor>log 2 y\<rfloor> \<le> y" and "y < 2 powi (\<lfloor>log 2 y\<rfloor> + 1)"
  using log2_floor_iff [OF assms, of "\<lfloor>log 2 y\<rfloor>"] by simp_all

lemma two_powi_add: "(2::real) powi (a + b) = 2 powi a * 2 powi b"
  by (rule power_int_add) simp

lemma two_powi_53: "(2::real) powi (b + 1) = 2 ^ 53 * 2 powi (b - 52)"
proof -
  have "(2::real) powi (b + 1) = 2 powi (53 + (b - 52))"
    by (rule arg_cong [where f = "\<lambda>k. 2 powi k"]) simp
  also have "\<dots> = 2 powi 53 * 2 powi (b - 52)" by (rule two_powi_add)
  finally show ?thesis by simp
qed

lemma two_powi_52: "(2::real) powi b = 2 ^ 52 * 2 powi (b - 52)"
proof -
  have "(2::real) powi b = 2 powi (52 + (b - 52))"
    by (rule arg_cong [where f = "\<lambda>k. 2 powi k"]) simp
  also have "\<dots> = 2 powi 52 * 2 powi (b - 52)" by (rule two_powi_add)
  finally show ?thesis by simp
qed

lemma two_powi_mono: "a \<le> b \<Longrightarrow> (2::real) powi a \<le> 2 powi b"
  by (rule power_int_increasing) simp_all

lemma two_powi_strict: "a < b \<Longrightarrow> (2::real) powi a < 2 powi b"
  by (rule power_int_strict_increasing) simp_all

lemma binade_ge: "- 1022 \<le> binade x"
  by (simp add: binade_def)

lemma binade_upper: "\<bar>x\<bar> < 2 powi (binade x + 1)"
proof (cases "x = 0")
  case True
  then show ?thesis by simp
next
  case False
  then have p: "0 < \<bar>x\<bar>" by simp
  have "\<bar>x\<bar> < 2 powi (\<lfloor>log 2 \<bar>x\<bar>\<rfloor> + 1)" using p by (rule log2_floor)
  also have "\<dots> \<le> 2 powi (binade x + 1)"
    using False by (intro two_powi_mono) (simp add: binade_def)
  finally show ?thesis .
qed

lemma binade_lower: "- 1022 < binade x \<Longrightarrow> 2 powi binade x \<le> \<bar>x\<bar>"
proof -
  assume a: "- 1022 < binade x"
  then have nz: "x \<noteq> 0" by (auto simp: binade_def)
  then have p: "0 < \<bar>x\<bar>" by simp
  have "binade x = \<lfloor>log 2 \<bar>x\<bar>\<rfloor>" using a nz by (simp add: binade_def max_def split: if_splits)
  then show ?thesis using log2_floor(1) [OF p] by simp
qed

lemma binade_eqI:
  assumes "2 powi e \<le> \<bar>x\<bar>" and "\<bar>x\<bar> < 2 powi (e + 1)" and "- 1022 \<le> e"
  shows "binade x = e"
proof -
  have "0 < (2::real) powi e" by simp
  then have p: "0 < \<bar>x\<bar>" using assms(1) by linarith
  then have nz: "x \<noteq> 0" by simp
  have "\<lfloor>log 2 \<bar>x\<bar>\<rfloor> = e" using log2_floor_iff [OF p] assms by simp
  then show ?thesis using nz assms(3) by (simp add: binade_def)
qed

lemma binade_small:
  assumes "\<bar>x\<bar> < 2 powi (- 1021)"
  shows "binade x = - 1022"
proof (cases "x = 0")
  case True
  then show ?thesis by (simp add: binade_def)
next
  case False
  then have p: "0 < \<bar>x\<bar>" by simp
  have "\<lfloor>log 2 \<bar>x\<bar>\<rfloor> \<le> - 1022"
  proof (rule ccontr)
    assume "\<not> \<lfloor>log 2 \<bar>x\<bar>\<rfloor> \<le> - 1022"
    then have "- 1021 \<le> \<lfloor>log 2 \<bar>x\<bar>\<rfloor>" by simp
    then have "(2::real) powi (- 1021) \<le> 2 powi \<lfloor>log 2 \<bar>x\<bar>\<rfloor>" by (rule two_powi_mono)
    also have "\<dots> \<le> \<bar>x\<bar>" using p by (rule log2_floor)
    finally show False using assms by simp
  qed
  then show ?thesis using False by (simp add: binade_def)
qed

lemma binade_neg: "binade (- x) = binade x"
  by (simp add: binade_def)

lemma binade_abs_mono:
  assumes "\<bar>x\<bar> \<le> \<bar>y\<bar>"
  shows "binade x \<le> binade y"
proof (rule ccontr)
  assume "\<not> binade x \<le> binade y"
  then have lt: "binade y + 1 \<le> binade x" by simp
  then have "- 1022 < binade x" using binade_ge [of y] by linarith
  then have "2 powi binade x \<le> \<bar>x\<bar>" by (rule binade_lower)
  moreover have "\<bar>y\<bar> < 2 powi (binade y + 1)" by (rule binade_upper)
  moreover have "(2::real) powi (binade y + 1) \<le> 2 powi binade x" using lt by (rule two_powi_mono)
  ultimately show False using assms by linarith
qed

lemma ulp_pos: "0 < ulp x"
  by (simp add: ulp_def)

lemma ulp_neg: "ulp (- x) = ulp x"
  by (simp add: ulp_def binade_neg)

lemma nd_neg: "nearest_double (- x) = - nearest_double x"
  by (simp add: nearest_double_def ulp_neg py_round_neg)

lemma nd_0: "nearest_double 0 = 0"
  by (simp add: nearest_double_def py_round_def)

lemma nd_nonneg: "0 \<le> x \<Longrightarrow> 0 \<le> nearest_double x"
  unfolding nearest_double_def using py_round_nonneg [of "x / ulp x"] ulp_pos [of x]
  by (simp add: zero_le_mult_iff zero_le_divide_iff)

lemma quot_upper: "\<bar>x\<bar> / ulp x < 2 ^ 53"
proof -
  have "\<bar>x\<bar> < 2 powi (binade x + 1)" by (rule binade_upper)
  also have "(2::real) powi (binade x + 1) = 2 ^ 53 * 2 powi (binade x - 52)"
    by (rule two_powi_53)
  finally have "\<bar>x\<bar> < 2 ^ 53 * ulp x" by (simp add: ulp_def)
  then show ?thesis using ulp_pos [of x] by (simp add: field_simps)
qed

lemma quot_lower: "- 1022 < binade x \<Longrightarrow> 2 ^ 52 \<le> \<bar>x\<bar> / ulp x"
proof -
  assume "- 1022 < binade x"
  then have "2 powi binade x \<le> \<bar>x\<bar>" by (rule binade_lower)
  moreover have "(2::real) powi binade x = 2 ^ 52 * 2 powi (binade x - 52)"
    by (rule two_powi_52)
  ultimately have "2 ^ 52 * ulp x \<le> \<bar>x\<bar>" by (simp add: ulp_def)
  then show ?thesis using ulp_pos [of x] by (simp add: field_simps)
qed

lemma nd_upper: "0 \<le> x \<Longrightarrow> nearest_double x \<le> 2 powi (binade x + 1)"
proof -
  assume x: "0 \<le> x"
  have "x / ulp x \<le> 2 ^ 53" using quot_upper [of x] x by simp
  then have "x / ulp x \<le> real_of_int (2 ^ 53)" by simp
  from py_round_mono [OF this] have "py_round (x / ulp x) \<le> 2 ^ 53"
    unfolding py_round_int .
  then have "real_of_int (py_round (x / ulp x)) \<le> 2 ^ 53"
    by (metis of_int_le_iff of_int_numeral of_int_power)
  then have "nearest_double x \<le> 2 ^ 53 * ulp x"
    unfolding nearest_double_def using ulp_pos [of x] by (simp add: mult_right_mono)
  also have "2 ^ 53 * ulp x = 2 powi (binade x + 1)"
    unfolding ulp_def by (rule two_powi_53 [symmetric])
  finally show ?thesis .
qed

lemma nd_lower: "0 \<le> x \<Longrightarrow> - 1022 < binade x \<Longrightarrow> 2 powi binade x \<le> nearest_double x"
proof -
  assume x: "0 \<le> x" and b: "- 1022 < binade x"
  have "2 ^ 52 \<le> x / ulp x" using quot_lower [OF b] x by simp
  then have "real_of_int (2 ^ 52) \<le> x / ulp x" by simp
  from py_round_mono [OF this] have "2 ^ 52 \<le> py_round (x / ulp x)"
    unfolding py_round_int .
  then have "2 ^ 52 \<le> real_of_int (py_round (x / ulp x))"
    by (metis of_int_le_iff of_int_numeral of_int_power)
  then have "2 ^ 52 * ulp x \<le> nearest_double x"
    unfolding nearest_double_def using ulp_pos [of x] by (simp add: mult_right_mono)
  moreover have "2 ^ 52 * ulp x = 2 powi binade x"
    unfolding ulp_def by (rule two_powi_52 [symmetric])
  ultimately show ?thesis by simp
qed

lemma nd_mono_pos:
  assumes "0 \<le> x" "x \<le> y"
  shows "nearest_double x \<le> nearest_double y"
proof -
  have y: "0 \<le> y" using assms by simp
  have le: "binade x \<le> binade y" using assms by (intro binade_abs_mono) simp
  show ?thesis
  proof (cases "binade x = binade y")
    case True
    then have u: "ulp x = ulp y" by (simp add: ulp_def)
    have "x / ulp y \<le> y / ulp y" using assms(2) ulp_pos [of y] by (simp add: divide_right_mono)
    then have "py_round (x / ulp y) \<le> py_round (y / ulp y)" by (rule py_round_mono)
    then have "real_of_int (py_round (x / ulp y)) \<le> real_of_int (py_round (y / ulp y))" by simp
    then show ?thesis unfolding nearest_double_def u using ulp_pos [of y] by (simp add: mult_right_mono)
  next
    case False
    then have lt: "binade x + 1 \<le> binade y" using le by simp
    then have b: "- 1022 < binade y" using binade_ge [of x] by linarith
    have "nearest_double x \<le> 2 powi (binade x + 1)" using assms(1) by (rule nd_upper)
    also have "\<dots> \<le> 2 powi binade y" using lt by (rule two_powi_mono)
    also have "\<dots> \<le> nearest_double y" using y b by (rule nd_lower)
    finally show ?thesis .
  qed
qed

lemma nd_mono: "x \<le> y \<Longrightarrow> nearest_double x \<le> nearest_double y"
proof -
  assume xy: "x \<le> y"
  consider "0 \<le> x" | "x < 0" "0 \<le> y" | "y < 0" using xy by linarith
  then show ?thesis
  proof cases
    case 1
    then show ?thesis using xy by (rule nd_mono_pos)
  next
    case 2
    have "0 \<le> nearest_double (- x)" using 2 by (intro nd_nonneg) simp
    then have "nearest_double x \<le> 0" by (simp add: nd_neg)
    also have "0 \<le> nearest_double y" using 2 by (intro nd_nonneg)
    finally show ?thesis .
  next
    case 3
    have "nearest_double (- y) \<le> nearest_double (- x)" using 3 xy by (intro nd_mono_pos) simp_all
    then show ?thesis by (simp add: nd_neg)
  qed
qed

lemma abs_less_pow_int: "\<bar>m\<bar> < 2 ^ 53 \<Longrightarrow> \<bar>real_of_int m\<bar> < 2 ^ 53"
  by (metis of_int_abs of_int_less_iff of_int_numeral of_int_power)

lemma nd_exact:
  assumes m: "\<bar>m\<bar> < 2 ^ 53" and e: "- 1074 \<le> e"
  shows "nearest_double (of_int m * 2 powi e) = of_int m * 2 powi e"
proof (cases "m = 0")
  case True
  then show ?thesis by (simp add: nd_0)
next
  case False
  let ?x = "real_of_int m * 2 powi e"
  let ?b = "binade ?x"
  have ax: "\<bar>?x\<bar> = \<bar>real_of_int m\<bar> * 2 powi e" by (simp add: abs_mult)
  have k: "?b - 52 \<le> e"
  proof (rule ccontr)
    assume "\<not> ?b - 52 \<le> e"
    then have g: "e + 53 \<le> ?b" by simp
    then have "- 1022 < ?b" using e by linarith
    then have "2 powi ?b \<le> \<bar>?x\<bar>" by (rule binade_lower)
    moreover have "\<bar>?x\<bar> < 2 ^ 53 * 2 powi e"
      unfolding ax using abs_less_pow_int [OF m] by (simp add: mult_strict_right_mono)
    moreover have "2 ^ 53 * 2 powi e = (2::real) powi (e + 53)"
      using two_powi_53 [of "e + 52"] by (simp add: add.commute)
    moreover have "(2::real) powi (e + 53) \<le> 2 powi ?b" using g by (rule two_powi_mono)
    ultimately show False by linarith
  qed
  define j where "j = nat (e - (?b - 52))"
  have j: "e = (?b - 52) + int j" using k by (simp add: j_def)
  have "(2::real) powi e = 2 powi (?b - 52) * 2 powi (int j)"
    by (subst j) (rule two_powi_add)
  then have p: "(2::real) powi e = ulp ?x * 2 ^ j" by (simp add: ulp_def)
  have q: "?x / ulp ?x = real_of_int (m * 2 ^ j)"
    using ulp_pos [of ?x] by (subst p) simp
  have "nearest_double ?x = real_of_int (m * 2 ^ j) * ulp ?x"
    unfolding nearest_double_def [of ?x] q py_round_int ..
  also have "\<dots> = real_of_int m * (ulp ?x * 2 ^ j)" by simp
  also have "\<dots> = ?x" unfolding p [symmetric] ..
  finally show ?thesis .
qed

lemma nd_int: "\<bar>m\<bar> < 2 ^ 53 \<Longrightarrow> nearest_double (of_int m) = of_int m"
  using nd_exact [of m 0] by simp

lemma nd_div_pow2:
  assumes "\<bar>m\<bar> < 2 ^ 53" and "k \<le> 1074"
  shows "nearest_double (of_int m / 2 ^ k) = of_int m / 2 ^ k"
proof -
  have "(2::real) powi (- int k) = 1 / 2 ^ k"
    by (simp add: power_int_minus field_simps)
  then have "real_of_int m / 2 ^ k = real_of_int m * 2 powi (- int k)" by simp
  moreover have "nearest_double (real_of_int m * 2 powi (- int k)) = real_of_int m * 2 powi (- int k)"
    using assms by (intro nd_exact) simp_all
  ultimately show ?thesis by simp
qed

lemma nd_pow2:
  assumes "- 1074 \<le> e"
  shows "nearest_double (2 powi e) = 2 powi e"
  using nd_exact [of 1 e] assms by simp

lemma nd_form: "\<exists>n. nearest_double x = of_int n * 2 powi (binade x - 52) \<and> \<bar>n\<bar> \<le> 2 ^ 53"
proof -
  let ?n = "py_round (x / ulp x)"
  have q: "\<bar>x / ulp x\<bar> < 2 ^ 53"
    using quot_upper [of x] ulp_pos [of x] by (simp add: abs_divide)
  have q1: "x / ulp x < 2 ^ 53" and q2: "- (x / ulp x) < 2 ^ 53"
    using q unfolding abs_less_iff by blast+
  have a: "x / ulp x \<le> real_of_int (2 ^ 53)" using q1 by simp
  have b: "real_of_int (- (2 ^ 53)) \<le> x / ulp x" using q2 by simp
  have "?n \<le> 2 ^ 53" using py_round_mono [OF a] unfolding py_round_int .
  moreover have "- (2 ^ 53) \<le> ?n" using py_round_mono [OF b] unfolding py_round_int .
  ultimately have "\<bar>?n\<bar> \<le> 2 ^ 53" by simp
  then show ?thesis unfolding nearest_double_def ulp_def by blast
qed

lemma nd_idem: "nearest_double (nearest_double x) = nearest_double x"
proof -
  obtain n where n: "nearest_double x = of_int n * 2 powi (binade x - 52)" and b: "\<bar>n\<bar> \<le> 2 ^ 53"
    using nd_form by blast
  have e: "- 1074 \<le> binade x - 52" using binade_ge [of x] by simp
  show ?thesis
  proof (cases "\<bar>n\<bar> < 2 ^ 53")
    case True
    then show ?thesis unfolding n using e by (rule nd_exact)
  next
    case False
    then have "\<bar>n\<bar> = 2 ^ 53" using b by simp
    then consider "n = 2 ^ 53" | "n = - (2 ^ 53)" by (auto simp: abs_if split: if_splits)
    then show ?thesis
    proof cases
      case 1
      have "nearest_double x = 2 powi (binade x + 1)" unfolding n 1 using two_powi_53 [of "binade x"] by simp
      moreover have "nearest_double (2 powi (binade x + 1)) = 2 powi (binade x + 1)"
        using e by (intro nd_pow2) simp
      ultimately show ?thesis by simp
    next
      case 2
      have "nearest_double x = - (2 powi (binade x + 1))" unfolding n 2 using two_powi_53 [of "binade x"] by simp
      moreover have "nearest_double (- (2 powi (binade x + 1))) = - (2 powi (binade x + 1))"
        unfolding nd_neg using e by (simp add: nd_pow2)
      ultimately show ?thesis by simp
    qed
  qed
qed

lemma nd_eval:
  assumes "binade x = b" and "\<bar>x - of_int n * 2 powi (b - 52)\<bar> < 2 powi (b - 52) / 2"
  shows "nearest_double x = of_int n * 2 powi (b - 52)"
proof -
  have u: "ulp x = 2 powi (b - 52)" using assms(1) by (simp add: ulp_def)
  have "\<bar>x / ulp x - of_int n\<bar> = \<bar>x - of_int n * ulp x\<bar> / ulp x"
    using ulp_pos [of x] by (simp add: field_simps abs_divide flip: abs_of_pos)
  also have "\<dots> < 1 / 2"
    using assms(2) ulp_pos [of x] unfolding u by (simp add: field_simps)
  finally have "py_round (x / ulp x) = n" by (rule py_round_near)
  then show ?thesis unfolding nearest_double_def u by simp
qed

lemma nd_between:
  assumes "a \<le> x" "x \<le> b" "nearest_double a = a" "nearest_double b = b"
  shows "a \<le> nearest_double x" "nearest_double x \<le> b"
  using nd_mono [OF assms(1)] nd_mono [OF assms(2)] assms(3,4) by simp_all

lemma double_exact: "nearest_double x = x \<Longrightarrow> \<bar>x\<bar> < 2 ^ 1024 \<Longrightarrow> double x = Some x"
  by (simp add: double_def)

lemma double_SomeD: "double x = Some r \<Longrightarrow> r = nearest_double x \<and> \<bar>r\<bar> < 2 ^ 1024"
  by (auto simp: double_def split: if_splits)

lemma double_between:
  assumes "a \<le> x" "x \<le> b" "nearest_double a = a" "nearest_double b = b"
    and "\<bar>a\<bar> < 2 ^ 1024" "\<bar>b\<bar> < 2 ^ 1024"
  shows "\<exists>r. double x = Some r \<and> a \<le> r \<and> r \<le> b"
proof -
  have l: "a \<le> nearest_double x" and u: "nearest_double x \<le> b"
    using nd_between [OF assms(1-4)] by simp_all
  then have "\<bar>nearest_double x\<bar> < 2 ^ 1024" using assms(5,6) by (simp add: abs_if split: if_splits)
  then show ?thesis using l u by (simp add: double_def)
qed

lemma double_neg: "double (- x) = map_option uminus (double x)"
  by (simp add: double_def nd_neg)

lemma double_of_int: "\<bar>m\<bar> < 2 ^ 53 \<Longrightarrow> double (of_int m) = Some (of_int m)"
proof -
  assume m: "\<bar>m\<bar> < 2 ^ 53"
  have "\<bar>real_of_int m\<bar> < 2 ^ 53" using m by (rule abs_less_pow_int)
  also have "(2::real) ^ 53 < 2 ^ 1024" by simp
  finally show ?thesis using nd_int [OF m] by (intro double_exact)
qed

lemma double_div_pow2:
  assumes "\<bar>m\<bar> < 2 ^ 53" and "k \<le> 1074"
  shows "double (of_int m / 2 ^ k) = Some (of_int m / 2 ^ k)"
proof -
  have "\<bar>real_of_int m\<bar> < 2 ^ 53" using assms(1) by (rule abs_less_pow_int)
  moreover have "\<bar>real_of_int m\<bar> / 2 ^ k \<le> \<bar>real_of_int m\<bar> / 1"
    by (rule divide_left_mono) simp_all
  ultimately have "\<bar>real_of_int m\<bar> / 2 ^ k < 2 ^ 53" by simp
  then have "\<bar>real_of_int m / 2 ^ k\<bar> < 2 ^ 1024" by (simp add: abs_divide)
  then show ?thesis using nd_div_pow2 [OF assms] by (intro double_exact)
qed

lemma double_numeral:
  "numeral n < (2::int) ^ 53 \<Longrightarrow> double (numeral n) = Some (numeral n)"
  using double_of_int [of "numeral n"] by simp

lemma double_numeral_2:
  "numeral n < (2::int) ^ 53 \<Longrightarrow> double (numeral n / 2) = Some (numeral n / 2)"
  using double_div_pow2 [of "numeral n" 1] by simp

lemma double_numeral_4:
  "numeral n < (2::int) ^ 53 \<Longrightarrow> double (numeral n / 4) = Some (numeral n / 4)"
  using double_div_pow2 [of "numeral n" 2] by simp

lemma double_numeral_8:
  "numeral n < (2::int) ^ 53 \<Longrightarrow> double (numeral n / 8) = Some (numeral n / 8)"
  using double_div_pow2 [of "numeral n" 3] by simp

lemma double_0: "double 0 = Some 0"
  using double_of_int [of 0] by simp

lemma double_1: "double 1 = Some 1"
  using double_of_int [of 1] by simp

lemma double_1_2: "double (1 / 2) = Some (1 / 2)"
  using double_div_pow2 [of 1 1] by simp

lemmas double_simps = double_neg double_numeral double_numeral_2 double_numeral_4
  double_numeral_8 double_0 double_1 double_1_2

lemma py_round_within:
  assumes "of_int k - 1/4 \<le> a" "a \<le> of_int k + 1/4"
  shows "py_round a = k"
proof -
  have "\<bar>a - of_int k\<bar> < 1/2" using assms by (simp add: abs_if)
  then show ?thesis by (rule py_round_near)
qed

lemma quarter_repr:
  assumes "\<bar>m\<bar> < 2 ^ 53"
  shows "nearest_double (of_int m / 4) = of_int m / 4" and "\<bar>real_of_int m / 4\<bar> < 2 ^ 1024"
proof -
  show "nearest_double (of_int m / 4) = of_int m / 4"
    using nd_div_pow2 [of m 2] assms by simp
  have "\<bar>real_of_int m\<bar> < 2 ^ 53" using assms by (rule abs_less_pow_int)
  then show "\<bar>real_of_int m / 4\<bar> < 2 ^ 1024" by simp
qed

lemma double_near_quarter:
  assumes "\<bar>k\<bar> < 2 ^ 50" and "\<bar>x - of_int k / 2\<bar> \<le> 1/4"
  shows "\<exists>r. double x = Some r \<and> \<bar>r - of_int k / 2\<bar> \<le> 1/4"
proof -
  have a: "\<bar>2 * k - 1\<bar> < 2 ^ 53" and b: "\<bar>2 * k + 1\<bar> < 2 ^ 53" using assms(1) by simp_all
  have c: "real_of_int (2 * k - 1) / 4 = real_of_int k / 2 - 1/4"
    "real_of_int (2 * k + 1) / 4 = real_of_int k / 2 + 1/4" by simp_all
  have l: "real_of_int (2 * k - 1) / 4 \<le> x" and u: "x \<le> real_of_int (2 * k + 1) / 4"
    unfolding c using assms(2) by linarith+
  from double_between [OF l u quarter_repr(1) [OF a] quarter_repr(1) [OF b]
      quarter_repr(2) [OF a] quarter_repr(2) [OF b]]
  obtain r where "double x = Some r" "real_of_int (2 * k - 1) / 4 \<le> r"
    "r \<le> real_of_int (2 * k + 1) / 4" by blast
  then have "double x = Some r" "real_of_int k / 2 - 1/4 \<le> r" "r \<le> real_of_int k / 2 + 1/4"
    unfolding c by simp_all
  then have "double x = Some r \<and> \<bar>r - of_int k / 2\<bar> \<le> 1/4" by linarith
  then show ?thesis by blast
qed

lemma snap_near:
  assumes z: "z - 1/2 = of_int k" and k: "\<bar>k\<bar> < 2 ^ 49" and x: "\<bar>x - z\<bar> \<le> 1/4"
  shows "snap x = Some z"
proof -
  have k2: "\<bar>2 * k\<bar> < 2 ^ 50" using k by simp
  have h: "real_of_int (2 * k) / 2 = real_of_int k" by simp
  have "\<bar>(x - 1/2) - of_int (2 * k) / 2\<bar> \<le> 1/4" unfolding h using x z by linarith
  from double_near_quarter [OF k2 this]
  obtain a where a: "double (x - 1/2) = Some a" and a': "\<bar>a - of_int k\<bar> \<le> 1/4"
    unfolding h by auto
  have r: "py_round a = k" using a' by (intro py_round_within) linarith+
  have m: "\<bar>2 * k + 1\<bar> < 2 ^ 53" using k by simp
  have e: "double (real_of_int (2 * k + 1) / 2 ^ 1) = Some (real_of_int (2 * k + 1) / 2 ^ 1)"
    using m by (intro double_div_pow2) simp_all
  have f: "real_of_int (2 * k + 1) / 2 ^ 1 = z" using z by simp
  have g: "real_of_int k + 1/2 = z" using z by simp
  have d: "double (real_of_int k + 1/2) = Some z" using e unfolding f g .
  show ?thesis by (simp add: snap_def a r d)
qed

lemma int_abs_bound: "- 1 \<le> (k::int) \<Longrightarrow> k < b \<Longrightarrow> 1 < b \<Longrightarrow> \<bar>k\<bar> < b"
  by linarith

lemma on_cells_ints:
  assumes "on_cells (real n) z0 z1" and "n \<le> 2 ^ 48"
  obtains k0 k1 where "z0 - 1/2 = of_int k0" "z1 - 1/2 = of_int k1"
    "\<bar>k0\<bar> < 2 ^ 49" "\<bar>k1\<bar> < 2 ^ 49"
proof -
  let ?k0 = "\<lfloor>z0 - 1/2\<rfloor>" and ?k1 = "\<lfloor>z1 - 1/2\<rfloor>"
  have e0: "z0 - 1/2 = of_int ?k0" and e1: "z1 - 1/2 = of_int ?k1"
    and b: "- 1/2 \<le> z0" "z0 \<le> z1" "z1 \<le> real n - 1/2"
    using assms(1) by (simp_all add: on_cells_def)
  have n: "real n \<le> 2 ^ 48" using assms(2)
    by (metis of_nat_le_iff of_nat_numeral of_nat_power)
  have "real_of_int (- 1) \<le> z0 - 1/2" "z0 - 1/2 < real_of_int (2 ^ 49)"
    "real_of_int (- 1) \<le> z1 - 1/2" "z1 - 1/2 < real_of_int (2 ^ 49)"
    using b n by simp_all
  then have "- 1 \<le> ?k0" "?k0 < 2 ^ 49" "- 1 \<le> ?k1" "?k1 < 2 ^ 49"
    unfolding le_floor_iff floor_less_iff by blast+
  then have "\<bar>?k0\<bar> < 2 ^ 49" "\<bar>?k1\<bar> < 2 ^ 49"
    by (intro int_abs_bound; simp)+
  with e0 e1 show ?thesis using that by blast
qed

lemma double_small:
  assumes "\<bar>x\<bar> \<le> 1/8"
  shows "\<exists>r. double x = Some r \<and> \<bar>r\<bar> \<le> 1/8"
proof -
  have r: "nearest_double (real_of_int (- 1) / 2 ^ 3) = real_of_int (- 1) / 2 ^ 3"
    "nearest_double (real_of_int 1 / 2 ^ 3) = real_of_int 1 / 2 ^ 3"
    by (rule nd_div_pow2; simp)+
  have "\<exists>r. double x = Some r \<and> - (1/8) \<le> r \<and> r \<le> 1/8"
    using assms r by (intro double_between) (simp_all add: abs_le_iff)
  then show ?thesis by (auto simp: abs_le_iff)
qed

lemma double_shift:
  assumes k: "\<bar>k\<bar> < 2 ^ 49" and z: "z - 1/2 = of_int k"
    and x: "\<bar>x - z\<bar> \<le> 1/8" and d: "\<bar>d\<bar> \<le> 1/8"
  shows "\<exists>r. double (x + d) = Some r \<and> \<bar>r - z\<bar> \<le> 1/4"
proof -
  have m: "\<bar>2 * k + 1\<bar> < 2 ^ 50" using k by simp
  have h: "real_of_int (2 * k + 1) / 2 = z" using z by simp
  have "\<bar>(x + d) - real_of_int (2 * k + 1) / 2\<bar> \<le> 1/4" unfolding h using x d by linarith
  from double_near_quarter [OF m this] show ?thesis unfolding h .
qed

lemma rigid_edges_near:
  assumes c: "on_cells (real n) z0 z1" and n: "n \<le> 2 ^ 48"
    and x0: "\<bar>x0 - z0\<bar> \<le> 1/8" and x1: "\<bar>x1 - z1\<bar> \<le> 1/8"
  shows "rigid_edges (real n) x0 x1 = Some (z0, z1)"
proof -
  obtain k0 k1 where k: "z0 - 1/2 = of_int k0" "z1 - 1/2 = of_int k1"
    "\<bar>k0\<bar> < 2 ^ 49" "\<bar>k1\<bar> < 2 ^ 49"
    using c n by (rule on_cells_ints)
  have b: "- 1/2 \<le> z0" "z1 \<le> real n - 1/2" using c by (simp_all add: on_cells_def)
  have s0: "snap x0 = Some z0" using k(1,3) x0 by (intro snap_near) simp_all
  have s1: "snap x1 = Some z1" using k(2,4) x1 by (intro snap_near) simp_all
  have ni: "\<bar>int n\<bar> < 2 ^ 53" "\<bar>2 * int n - 1\<bar> < 2 ^ 53" using n by simp_all
  have e1: "double (real n) = Some (real n)"
    using double_of_int [OF ni(1)] by simp
  have e: "double (real_of_int (2 * int n - 1) / 2 ^ 1) = Some (real_of_int (2 * int n - 1) / 2 ^ 1)"
    using ni(2) by (intro double_div_pow2) simp_all
  have f: "real_of_int (2 * int n - 1) / 2 ^ 1 = real n - 1/2" by (simp add: field_simps)
  have e2: "double (real n - 1/2) = Some (real n - 1/2)" using e unfolding f .
  have xl: "max z0 (- (1/2)) = z0" and xr: "min z1 (real n - 1/2) = z1" using b by simp_all
  obtain dxl where dxl: "double (z0 - x0) = Some dxl" "\<bar>dxl\<bar> \<le> 1/8"
    using double_small [of "z0 - x0"] x0 by (auto simp: abs_minus_commute)
  obtain dxr where dxr: "double (z1 - x1) = Some dxr" "\<bar>dxr\<bar> \<le> 1/8"
    using double_small [of "z1 - x1"] x1 by (auto simp: abs_minus_commute)
  obtain x1a where x1a: "(if dxl > 0 then double (x1 + dxl) else Some x1) = Some x1a"
    "\<bar>x1a - z1\<bar> \<le> 1/4"
  proof (cases "dxl > 0")
    case True
    then show ?thesis using double_shift [OF k(4) k(2) x1 dxl(2)] that by auto
  next
    case False
    then show ?thesis using x1 that by auto
  qed
  obtain x0a where x0a: "(if dxr < 0 then double (x0 + dxr) else Some x0) = Some x0a"
    "\<bar>x0a - z0\<bar> \<le> 1/4"
  proof (cases "dxr < 0")
    case True
    then show ?thesis using double_shift [OF k(3) k(1) x0 dxr(2)] that by auto
  next
    case False
    then show ?thesis using x0 that by auto
  qed
  have s0': "snap x0a = Some z0" using k(1,3) x0a(2) by (intro snap_near)
  have s1': "snap x1a = Some z1" using k(2,4) x1a(2) by (intro snap_near)
  show ?thesis
    unfolding rigid_edges_def
    by (simp add: s0 s1 e1 e2 xl xr dxl(1) dxr(1) x1a(1) x0a(1) s0' s1' Let_def)
qed

lemma rigid_edges_on_cells:
  assumes "on_cells (real n) z0 z1" and "n \<le> 2 ^ 48"
  shows "rigid_edges (real n) z0 z1 = Some (z0, z1)"
  using assms by (rule rigid_edges_near) simp_all

lemma hilo_xlen:
  assumes "hilo ds a b = Inr (v, ds')"
  shows "xlen ds' = xlen ds"
proof -
  have "ds' = ds\<lparr>cache_hilo := cache_hilo ds'\<rparr>" using assms by (rule hilo_frame)
  then have "df ds' = df (ds\<lparr>cache_hilo := cache_hilo ds'\<rparr>)" by simp
  then show ?thesis by (simp add: xlen_def)
qed

lemma set_range_cases:
  assumes "set_range self x0 y0 x1 y1 = Inr self'"
  shows "\<exists>v0 v1. self' = setRange self \<lparr>x_left = x0, y_top = v0, x_right = x1, y_bottom = v1\<rparr>"
  using assms by (auto simp: set_range_def split: option.splits)

lemma update_y_zoom_cases:
  assumes "datasrc self = Some ds" and "update_y_zoom self a0 a1 = Inr self'"
  shows "\<exists>x0 x1 v ds'.
      rigid_edges (real (xlen ds)) (fst (given_range self a0 a1)) (snd (given_range self a0 a1))
        = Some (x0, x1)
    \<and> hilo ds x0 x1 = Inr (v, ds')
    \<and> (self' = self\<lparr>datasrc := Some ds'\<rparr>
       \<or> (\<exists>v0 v1. self' = setRange (self\<lparr>datasrc := Some ds'\<rparr>)
             \<lparr>x_left = x0, y_top = v0, x_right = x1, y_bottom = v1\<rparr>))"
proof -
  let ?g0 = "fst (given_range self a0 a1)" and ?g1 = "snd (given_range self a0 a1)"
  obtain x0 x1 where r: "rigid_edges (real (xlen ds)) ?g0 ?g1 = Some (x0, x1)"
    using assms
    by (cases "rigid_edges (real (xlen ds)) ?g0 ?g1")
      (auto simp: update_y_zoom_def Let_def case_prod_unfold)
  obtain v ds' where h: "hilo ds x0 x1 = Inr (v, ds')"
    using assms r
    by (cases "hilo ds x0 x1") (auto simp: update_y_zoom_def Let_def case_prod_unfold)
  let ?s1 = "self\<lparr>datasrc := Some ds'\<rparr>"
  have "self' = ?s1 \<or> (\<exists>y0 y1. set_range ?s1 x0 y0 x1 y1 = Inr self')"
    using assms r h
    by (auto simp: update_y_zoom_def Let_def case_prod_unfold
        split: if_splits sum.splits option.splits cell.splits prod.splits)
  then have "self' = ?s1 \<or> (\<exists>v0 v1. self' = setRange ?s1
             \<lparr>x_left = x0, y_top = v0, x_right = x1, y_bottom = v1\<rparr>)"
    using set_range_cases by blast
  then show ?thesis using r h by blast
qed

lemma update_y_zoom_changes:
  assumes "datasrc self = Some ds" and "update_y_zoom self a0 a1 = Inr self'"
    and "targetRect self' \<noteq> targetRect self"
    and "rigid_edges (real (xlen ds)) (fst (given_range self a0 a1)) (snd (given_range self a0 a1))
        = Some (z0, z1)"
  shows "x_left (targetRect self') = z0" and "x_right (targetRect self') = z1"
    and "\<exists>ds'. datasrc self' = Some ds' \<and> xlen ds' = xlen ds"
proof -
  from update_y_zoom_cases [OF assms(1,2)] obtain x0 x1 v ds' where
    r: "rigid_edges (real (xlen ds)) (fst (given_range self a0 a1)) (snd (given_range self a0 a1))
        = Some (x0, x1)"
    and h: "hilo ds x0 x1 = Inr (v, ds')"
    and c: "self' = self\<lparr>datasrc := Some ds'\<rparr>
       \<or> (\<exists>v0 v1. self' = setRange (self\<lparr>datasrc := Some ds'\<rparr>)
             \<lparr>x_left = x0, y_top = v0, x_right = x1, y_bottom = v1\<rparr>)"
    by blast
  have x: "x0 = z0" "x1 = z1" using r assms(4) by simp_all
  have "self' \<noteq> self\<lparr>datasrc := Some ds'\<rparr>" using assms(3) by auto
  then obtain v0 v1 where s: "self' = setRange (self\<lparr>datasrc := Some ds'\<rparr>)
             \<lparr>x_left = x0, y_top = v0, x_right = x1, y_bottom = v1\<rparr>" using c by blast
  show "x_left (targetRect self') = z0" "x_right (targetRect self') = z1"
    unfolding s using x by (simp_all add: setRange_def)
  have "datasrc self' = Some ds'" unfolding s by (simp add: setRange_def)
  then show "\<exists>ds'. datasrc self' = Some ds' \<and> xlen ds' = xlen ds"
    using hilo_xlen [OF h] by blast
qed

lemma zoom_rect_update:
  assumes "datasrc self = Some ds" and "zoom_edges vr s c = Some (a0, a1)"
  shows "zoom_rect self vr s c = update_y_zoom self (Some a0) (Some a1)"
  using assms by (simp add: zoom_rect_def)

theorem zoom_rect_roundtrip:
  assumes ds: "datasrc self = Some ds" and n: "xlen ds \<le> 2 ^ 48"
    and orig: "on_cells (real (xlen ds)) (x_left vr) (x_right vr)"
    and e1: "zoom_edges vr s c = Some (a0, a1)"
    and z: "on_cells (real (xlen ds)) z0 z1" "\<bar>a0 - z0\<bar> \<le> 1/8" "\<bar>a1 - z1\<bar> \<le> 1/8"
    and fst1: "zoom_rect self vr s c = Inr self1" "targetRect self1 \<noteq> targetRect self"
    and e2: "zoom_edges (targetRect self1) t c = Some (b0, b1)"
    and bk: "\<bar>b0 - x_left vr\<bar> \<le> 1/8" "\<bar>b1 - x_right vr\<bar> \<le> 1/8"
    and snd2: "zoom_rect self1 (targetRect self1) t c = Inr self2"
      "targetRect self2 \<noteq> targetRect self1"
  shows "x_left (targetRect self1) = z0 \<and> x_right (targetRect self1) = z1
    \<and> x_left (targetRect self2) = x_left vr \<and> x_right (targetRect self2) = x_right vr"
proof -
  have u1: "update_y_zoom self (Some a0) (Some a1) = Inr self1"
    using zoom_rect_update [OF ds e1] fst1(1) by simp
  have r1: "rigid_edges (real (xlen ds)) (fst (given_range self (Some a0) (Some a1)))
      (snd (given_range self (Some a0) (Some a1))) = Some (z0, z1)"
    using rigid_edges_near [OF z(1) n z(2,3)] by (simp add: given_range_def)
  note c1 = update_y_zoom_changes [OF ds u1 fst1(2) r1]
  obtain ds1 where ds1: "datasrc self1 = Some ds1" and x1: "xlen ds1 = xlen ds"
    using c1(3) by blast
  have u2: "update_y_zoom self1 (Some b0) (Some b1) = Inr self2"
    using zoom_rect_update [OF ds1 e2] snd2(1) by simp
  have r2: "rigid_edges (real (xlen ds1)) (fst (given_range self1 (Some b0) (Some b1)))
      (snd (given_range self1 (Some b0) (Some b1))) = Some (x_left vr, x_right vr)"
    unfolding x1 using rigid_edges_near [OF orig n bk] by (simp add: given_range_def)
  note c2 = update_y_zoom_changes [OF ds1 u2 snd2(2) r2]
  show ?thesis using c1(1,2) c2(1,2) by simp
qed

theorem update_y_zoom_skipped:
  assumes "datasrc self = Some ds"
    and "rigid_edges (real (xlen ds)) (fst (given_range self a0 a1)) (snd (given_range self a0 a1))
          = Some (x0, x1)"
    and "hilo ds x0 x1 = Inr ((t0, t1, hi, lo, cnt), ds')"
    and "real cnt < width (viewRect self)" and "cnt < max_zoom_points"
  shows "update_y_zoom self a0 a1 = Inr (self\<lparr>datasrc := Some ds'\<rparr>)
    \<and> targetRect (self\<lparr>datasrc := Some ds'\<rparr>) = targetRect self
    \<and> viewRect (self\<lparr>datasrc := Some ds'\<rparr>) = viewRect self"
  using assms by (simp add: update_y_zoom_def Let_def case_prod_unfold)

lemma py_round_numeral: "py_round (numeral n) = numeral n"
  using py_round_int [of "numeral n"] by simp

lemma pow2_repr:
  assumes "k \<le> 1074"
  shows "nearest_double (1 / 2 ^ k) = 1 / 2 ^ k"
  using nd_div_pow2 [of 1 k] assms by simp

lemma literal_2e_7: "1 / 2 ^ 23 \<le> literal_2e_7" "literal_2e_7 \<le> 1 / 2 ^ 22" "0 < literal_2e_7"
  "nearest_double literal_2e_7 = literal_2e_7"
proof -
  have "(1::real) / 2 ^ 23 \<le> 2 / 10 ^ 7" "(2::real) / 10 ^ 7 \<le> 1 / 2 ^ 22"
    by simp_all
  from nd_between [OF this pow2_repr pow2_repr]
  show a: "1 / 2 ^ 23 \<le> literal_2e_7" and "literal_2e_7 \<le> 1 / 2 ^ 22"
    unfolding literal_2e_7_def by simp_all
  have "(0::real) < 1 / 2 ^ 23" by simp
  with a show "0 < literal_2e_7" by linarith
  show "nearest_double literal_2e_7 = literal_2e_7"
    unfolding literal_2e_7_def by (rule nd_idem)
qed

lemma y_zoom_linear_3_1: "y_zoom_linear 1 (1 / 2) 3 1 = Some (1, 3)"
proof -
  have "literal_2e_7 \<le> 2" using literal_2e_7(2) by (rule order_trans) simp
  then have m: "max 2 literal_2e_7 = 2" by (simp add: max_def)
  show ?thesis
    by (simp add: y_zoom_linear_def float_div_def double_simps m Let_def)
qed

lemma update_y_zoom_linear_sets:
  assumes "datasrc self = Some ds"
    and "rigid_edges (real (xlen ds)) (fst (given_range self a0 a1)) (snd (given_range self a0 a1))
          = Some (x0, x1)"
    and "hilo ds x0 x1 = Inr ((t0, t1, Num hi, Num lo, cnt), ds')"
    and "\<not> (real cnt < width (viewRect self) \<and> cnt < max_zoom_points)"
    and "v_autozoom self" and "scaletype (yscale self) \<noteq> ''log''"
    and "y_zoom_linear (v_zoom_scale self) (v_zoom_baseline self) hi lo = Some (y0, y1)"
    and "float_div y0 (scalef (yscale self)) = Some v0"
    and "float_div y1 (scalef (yscale self)) = Some v1"
  shows "update_y_zoom self a0 a1 =
    Inr (setRange (self\<lparr>datasrc := Some ds'\<rparr>)
      \<lparr>x_left = x0, y_top = v0, x_right = x1, y_bottom = v1\<rparr>)"
proof -
  have skip: "(real cnt < width (viewRect self) \<and> cnt < max_zoom_points) = False"
    using assms(4) by simp
  show ?thesis
    using assms(1-3,5-9)
    by (simp add: update_y_zoom_def Let_def case_prod_unfold skip set_range_def invxform_def)
qed

lemma sixty_facts:
  "len (df (init_fields sixty_frame)) = 60" "ncols (df (init_fields sixty_frame)) = 3"
  "scale_cols (init_fields sixty_frame) = [1, 2]" "xlen (init_fields sixty_frame) = 65"
  "cache_hilo (init_fields sixty_frame) = []"
  "body (df (init_fields sixty_frame)) = map (\<lambda>i. [Num (real i), Num 1, Num 3]) [0..<60]"
  by (simp_all add: init_fields_def sixty_frame_def len_def ncols_def u_has_timecol_def Let_def
      xlen_def right_margin_candles_def upt_conv_Cons)

lemma sixty_u_hilo_15_34:
  "u_hilo (init_fields sixty_frame) 15 34 = Inr (Num 15, Num 34, Num 3, Num 1, 20)"
  by (simp add: u_hilo_def sixty_facts loc_Cons_eval Let_def nanmax_def nanmin_def upt_conv_Cons)

lemma literal_1e_100: "1 / 2 ^ 333 \<le> literal_1e_100" "literal_1e_100 \<le> 1 / 2 ^ 332"
  "0 < literal_1e_100" "nearest_double literal_1e_100 = literal_1e_100"
proof -
  have "(1::real) / 2 ^ 333 \<le> 1 / 10 ^ 100" "(1::real) / 10 ^ 100 \<le> 1 / 2 ^ 332"
    by simp_all
  from nd_between [OF this pow2_repr pow2_repr]
  show a: "1 / 2 ^ 333 \<le> literal_1e_100" and "literal_1e_100 \<le> 1 / 2 ^ 332"
    unfolding literal_1e_100_def by simp_all
  have "(0::real) < 1 / 2 ^ 333" by simp
  with a show "0 < literal_1e_100" by linarith
  show "nearest_double literal_1e_100 = literal_1e_100"
    unfolding literal_1e_100_def by (rule nd_idem)
qed

lemma literal_1e50: "2 ^ 166 \<le> literal_1e50" "literal_1e50 \<le> 2 ^ 167" "0 < literal_1e50"
  "nearest_double literal_1e50 = literal_1e50"
proof -
  have r: "nearest_double (2 ^ 166) = 2 ^ 166" "nearest_double (2 ^ 167) = 2 ^ 167"
    using nd_pow2 [of 166] nd_pow2 [of 167] by simp_all
  have "(2::real) ^ 166 \<le> 10 ^ 50" "(10::real) ^ 50 \<le> 2 ^ 167" by simp_all
  from nd_between [OF this r]
  show a: "2 ^ 166 \<le> literal_1e50" and "literal_1e50 \<le> 2 ^ 167"
    unfolding literal_1e50_def by simp_all
  have "(0::real) < 2 ^ 166" by simp
  with a show "0 < literal_1e50" by linarith
  show "nearest_double literal_1e50 = literal_1e50"
    unfolding literal_1e50_def by (rule nd_idem)
qed

lemma double_nonneg: "0 \<le> x \<Longrightarrow> double x = Some r \<Longrightarrow> 0 \<le> r"
  using double_SomeD nd_nonneg by blast

lemma py_pow_nonneg: "0 \<le> x \<Longrightarrow> py_pow x a = Some p \<Longrightarrow> 0 \<le> p"
  by (auto simp: py_pow_def split: if_splits)

lemma float_pow_nonneg:
  assumes "0 \<le> x" "float_pow x a = Some p"
  shows "0 \<le> p"
proof -
  obtain w where w: "py_pow x a = Some w" "double w = Some p"
    using assms(2) by (auto simp: float_pow_def bind_eq_Some_conv)
  have "0 \<le> w" using assms(1) w(1) by (rule py_pow_nonneg)
  then show ?thesis using w(2) by (rule double_nonneg)
qed

lemma float_div_nonneg:
  assumes "0 \<le> x" "0 \<le> y" "float_div x y = Some r"
  shows "0 \<le> r"
proof -
  have "double (x / y) = Some r" using assms(3) by (auto simp: float_div_def split: if_splits)
  moreover have "0 \<le> x / y" using assms(1,2) by simp
  ultimately show ?thesis using double_nonneg by blast
qed

lemma y_zoom_linear_parts:
  assumes "y_zoom_linear zs bl hi lo = Some (y0, y1)"
  shows "\<exists>rng base.
      zs \<noteq> 0
    \<and> rng = max (nearest_double (nearest_double (hi - lo) / zs)) literal_2e_7
    \<and> literal_2e_7 \<le> rng
    \<and> base = nearest_double (nearest_double (hi + lo) * bl)
    \<and> y0 = nearest_double (base - nearest_double (rng * bl))
    \<and> y1 = nearest_double (base + nearest_double (rng * nearest_double (1 - bl)))
    \<and> (0 \<le> bl \<and> bl \<le> 1 \<longrightarrow> y0 \<le> base \<and> base \<le> y1 \<and> 0 \<le> y1 - y0)"
proof -
  from assms obtain d q s base below rest above where
    d: "double (hi - lo) = Some d" and q: "float_div d zs = Some q"
    and s: "double (hi + lo) = Some s" and base: "double (s * bl) = Some base"
    and below: "double (max q literal_2e_7 * bl) = Some below"
    and y0: "double (base - below) = Some y0"
    and rest: "double (1 - bl) = Some rest"
    and above: "double (max q literal_2e_7 * rest) = Some above"
    and y1: "double (base + above) = Some y1"
    by (auto simp: y_zoom_linear_def bind_eq_Some_conv Let_def)
  let ?rng = "max q literal_2e_7"
  have z: "zs \<noteq> 0" and q': "double (d / zs) = Some q"
    using q by (auto simp: float_div_def split: if_splits)
  have e: "d = nearest_double (hi - lo)" "q = nearest_double (d / zs)"
    "s = nearest_double (hi + lo)" "base = nearest_double (s * bl)"
    "below = nearest_double (?rng * bl)" "y0 = nearest_double (base - below)"
    "rest = nearest_double (1 - bl)" "above = nearest_double (?rng * rest)"
    "y1 = nearest_double (base + above)"
    using d q' s base below y0 rest above y1 double_SomeD by blast+
  have r: "literal_2e_7 \<le> ?rng" by simp
  have rp: "0 \<le> ?rng" using r literal_2e_7(3) by linarith
  have bb: "nearest_double base = base" unfolding e(4) by (rule nd_idem)
  have w: "y0 \<le> base \<and> base \<le> y1 \<and> 0 \<le> y1 - y0" if "0 \<le> bl \<and> bl \<le> 1"
  proof -
    have "0 \<le> ?rng * bl" using rp that by simp
    then have "0 \<le> below" unfolding e(5) by (rule nd_nonneg)
    then have "base - below \<le> base" by simp
    then have a: "y0 \<le> base" unfolding e(6) using nd_mono [of "base - below" base] bb by simp
    have "0 \<le> 1 - bl" using that by simp
    then have "0 \<le> rest" unfolding e(7) by (rule nd_nonneg)
    then have "0 \<le> ?rng * rest" using rp by simp
    then have "0 \<le> above" unfolding e(8) by (rule nd_nonneg)
    then have "base \<le> base + above" by simp
    then have b: "base \<le> y1" unfolding e(9) using nd_mono [of base "base + above"] bb by simp
    show ?thesis using a b by simp
  qed
  show ?thesis
    using z r w e by blast
qed

lemma y_zoom_log_parts:
  assumes "y_zoom_log zs bl hi lo = Inr (Some y0, Some y1)" and "0 < hi"
  shows "\<exists>l rng base.
      zs \<noteq> 0
    \<and> l = max literal_1e_100 lo \<and> 0 < l
    \<and> (\<exists>q e p. double (hi / l) = Some q \<and> double (1 / zs) = Some e \<and> float_pow q e = Some p
          \<and> rng = min p literal_1e50)
    \<and> 0 \<le> rng \<and> rng \<le> literal_1e50
    \<and> (\<exists>m. double (hi * l) = Some m \<and> float_pow m bl = Some base)
    \<and> (\<exists>p. float_pow rng bl = Some p \<and> float_div base p = Some y0)
    \<and> (\<exists>rest p. double (1 - bl) = Some rest \<and> float_pow rng rest = Some p
          \<and> double (base * p) = Some y1)
    \<and> 0 \<le> y0 \<and> 0 \<le> y1"
proof -
  let ?l = "max literal_1e_100 lo"
  have z: "zs \<noteq> 0" using assms(1) by (auto simp: y_zoom_log_def Let_def split: if_splits)
  have l: "0 < ?l" using literal_1e_100(3) by (simp add: max_def)
  from assms(1) z obtain base rng p0 where
    base: "Option.bind (double (hi * ?l)) (\<lambda>m. float_pow m bl) = Some base"
    and rng: "Option.bind (double (hi / ?l)) (\<lambda>q.
                 Option.bind (double (1 / zs)) (\<lambda>e.
                 map_option (\<lambda>r. min r literal_1e50) (float_pow q e))) = Some rng"
    and p0: "float_pow rng bl = Some p0" and y0: "float_div base p0 = Some y0"
    by (auto simp: y_zoom_log_def Let_def bind_eq_Some_conv)
  from assms(1) z base rng obtain rest p1 where
    rest: "double (1 - bl) = Some rest" and p1: "float_pow rng rest = Some p1"
    and y1: "double (base * p1) = Some y1"
    by (auto simp: y_zoom_log_def Let_def bind_eq_Some_conv)
  from rng obtain q e p where q: "double (hi / ?l) = Some q" and e: "double (1 / zs) = Some e"
    and p: "float_pow q e = Some p" and r: "rng = min p literal_1e50"
    by (auto simp: bind_eq_Some_conv)
  from base obtain m where m: "double (hi * ?l) = Some m" and b: "float_pow m bl = Some base"
    by (auto simp: bind_eq_Some_conv)
  have "0 \<le> hi / ?l" using assms(2) l by simp
  then have "0 \<le> q" using q by (rule double_nonneg)
  then have "0 \<le> p" using p by (rule float_pow_nonneg)
  then have r0: "0 \<le> rng" unfolding r using literal_1e50(3) by simp
  have r1: "rng \<le> literal_1e50" unfolding r by simp
  have "0 \<le> hi * ?l" using assms(2) l by simp
  then have "0 \<le> m" using m by (rule double_nonneg)
  then have b0: "0 \<le> base" using b by (rule float_pow_nonneg)
  have "0 \<le> p0" using r0 p0 by (rule float_pow_nonneg)
  then have a0: "0 \<le> y0" using b0 y0 float_div_nonneg by blast
  have "0 \<le> p1" using r0 p1 by (rule float_pow_nonneg)
  then have "0 \<le> base * p1" using b0 by simp
  then have a1: "0 \<le> y1" using y1 by (rule double_nonneg)
  show ?thesis
    using z l q e p r r0 r1 m b p0 y0 rest p1 y1 a0 a1 by blast
qed

lemma invxform_log_verify:
  "scaletype ys = ''log'' \<Longrightarrow> y \<le> 0 \<Longrightarrow> invxform ys y True = Some (- 1000000)"
  by (simp add: invxform_def)

lemma nd_absorb:
  assumes "2 ^ 32 \<le> x" "x < 2 ^ 33" "\<bar>x - of_int m / 2 ^ 20\<bar> < 1 / 2 ^ 21"
  shows "nearest_double x = of_int m / 2 ^ 20"
proof -
  have b: "binade x = 32"
    using assms(1,2) by (intro binade_eqI) simp_all
  have p: "(2::real) powi (32 - 52) = 1 / 2 ^ 20"
    by (simp add: power_int_minus field_simps)
  have "\<bar>x - of_int m * 2 powi (32 - 52)\<bar> < 2 powi (32 - 52) / 2"
    unfolding p using assms(3) by simp
  from nd_eval [OF b this] show ?thesis unfolding p by simp
qed

lemma half_literal_2e_7:
  "\<exists>b. double (literal_2e_7 * (1 / 2)) = Some b \<and> 1 / 2 ^ 24 \<le> b \<and> b \<le> 1 / 2 ^ 23"
proof -
  have a: "(1::real) / 2 ^ 24 \<le> literal_2e_7 * (1 / 2)" "literal_2e_7 * (1 / 2) \<le> 1 / 2 ^ 23"
    using literal_2e_7(1,2) by simp_all
  show ?thesis
    by (rule double_between [OF a pow2_repr pow2_repr]) simp_all
qed

lemma y_zoom_linear_absorbed:
  "y_zoom_linear 1 (1 / 2) 5000000000 5000000000 = Some (5000000000, 5000000000)"
proof -
  obtain b where b: "double (literal_2e_7 * (1 / 2)) = Some b" "1 / 2 ^ 24 \<le> b" "b \<le> 1 / 2 ^ 23"
    using half_literal_2e_7 by blast
  have m: "max 0 literal_2e_7 = literal_2e_7" using literal_2e_7(3) by simp
  have f: "5000000000 = real_of_int 5242880000000000 / 2 ^ 20" by simp
  have "nearest_double (5000000000 - b) = real_of_int 5242880000000000 / 2 ^ 20"
    using b(2,3) by (intro nd_absorb) (simp_all add: abs_if)
  then have lo: "double (5000000000 - b) = Some 5000000000"
    unfolding f [symmetric] by (simp add: double_def)
  have "nearest_double (5000000000 + b) = real_of_int 5242880000000000 / 2 ^ 20"
    using b(2,3) by (intro nd_absorb) (simp_all add: abs_if)
  then have hi: "double (5000000000 + b) = Some 5000000000"
    unfolding f [symmetric] by (simp add: double_def)
  have b': "double (literal_2e_7 / 2) = Some b" using b(1) by simp
  show ?thesis
    by (simp add: y_zoom_linear_def float_div_def double_simps m b' lo hi Let_def)
qed

section \<open>Properties of FinPlotItem: the cached picture\<close>

subsection \<open>When the picture is generated again\<close>

lemma cached_after_init:
  "update_dirty_picture (init_item l) vis = Inr (u_generate_picture (init_item l) vis)"
  by (simp add: update_dirty_picture_def init_item_def)

lemma u_generate_picture_fields:
  "dirty (u_generate_picture self vis) = False"
  "lod (u_generate_picture self vis) = lod self"
  "cachedRect (u_generate_picture self vis) =
     Some \<lparr>x_left = x_left vis - width vis, y_top = 0,
           x_right = x_left vis - width vis + 3 * width vis, y_bottom = 0\<rparr>"
  "generated (u_generate_picture self vis) = generated self @
     [\<lparr>x_left = x_left vis - width vis, y_top = 0,
       x_right = x_left vis - width vis + 3 * width vis, y_bottom = 0\<rparr>]"
  by (simp_all add: u_generate_picture_def QRectF_xywh_def cache_candle_factor_def Let_def)

text \<open>
  Claim C5. On an item that is dirty, has no level of detail or has a cached rectangle
  (as every item has once it is no longer dirty), \<^verbatim>\<open>update_dirty_picture\<close> returns. The
  picture is generated again exactly when the item is dirty or, with level of detail, the
  visible rectangle begins left of the cached one, ends right of it, or is narrower than a
  third of it. Then the drawing routine is called once, with the rectangle from
  \<open>left - width\<close> to \<open>left - width + 3 * width\<close> of the visible one, that rectangle becomes the
  cached one, and the dirty flag is cleared. Otherwise nothing changes.
\<close>

theorem update_dirty_picture_regenerates:
  assumes "dirty self \<or> \<not> lod self \<or> cachedRect self \<noteq> None"
  shows "\<exists>self'. update_dirty_picture self vis = Inr self'
    \<and> (still_valid self vis \<longrightarrow> self' = self)
    \<and> (\<not> still_valid self vis \<longrightarrow>
          generated self' = generated self @
            [\<lparr>x_left = x_left vis - width vis, y_top = 0,
              x_right = x_left vis - width vis + 3 * width vis, y_bottom = 0\<rparr>]
        \<and> cachedRect self' =
            Some \<lparr>x_left = x_left vis - width vis, y_top = 0,
                  x_right = x_left vis - width vis + 3 * width vis, y_bottom = 0\<rparr>
        \<and> \<not> dirty self' \<and> lod self' = lod self)
    \<and> (still_valid self vis \<longleftrightarrow>
          \<not> (dirty self \<or> (lod self \<and> (\<exists>c. cachedRect self = Some c \<and>
               (x_left vis < x_left c \<or> x_right vis > x_right c \<or> width vis < width c / 3)))))"
proof (cases "dirty self")
  case True
  then show ?thesis
    by (simp add: update_dirty_picture_def still_valid_def u_generate_picture_fields)
next
  case False
  note nd = this
  show ?thesis
  proof (cases "lod self")
    case False
    then show ?thesis using nd
      by (simp add: update_dirty_picture_def still_valid_def)
  next
    case True
    then obtain c where c: "cachedRect self = Some c"
      using assms nd by auto
    show ?thesis
    proof (cases "x_left vis < x_left c \<or> x_right vis > x_right c \<or> width vis < width c / 3")
      case True
      then have "\<not> still_valid self vis"
        using nd \<open>lod self\<close> c by (auto simp: still_valid_def)
      moreover have "update_dirty_picture self vis = Inr (u_generate_picture self vis)"
        using True nd \<open>lod self\<close> c
        by (simp add: update_dirty_picture_def cache_candle_factor_def)
      ultimately show ?thesis
        using True nd \<open>lod self\<close> c by (simp add: u_generate_picture_fields)
    next
      case False
      then have "still_valid self vis"
        using nd \<open>lod self\<close> c by (auto simp: still_valid_def)
      moreover have "update_dirty_picture self vis = Inr self"
        using False nd \<open>lod self\<close> c
        by (simp add: update_dirty_picture_def cache_candle_factor_def)
      ultimately show ?thesis
        using False nd \<open>lod self\<close> c by simp
    qed
  qed
qed

theorem update_dirty_picture_regenerates_witness:
  "cachedRect shown_item \<noteq> None
   \<and> still_valid shown_item \<lparr>x_left = 5, y_top = 0, x_right = 15, y_bottom = 1\<rparr>
   \<and> update_dirty_picture shown_item \<lparr>x_left = 5, y_top = 0, x_right = 15, y_bottom = 1\<rparr>
       = Inr shown_item
   \<and> \<not> still_valid shown_item \<lparr>x_left = 5, y_top = 0, x_right = 14, y_bottom = 1\<rparr>
   \<and> update_dirty_picture shown_item \<lparr>x_left = 5, y_top = 0, x_right = 14, y_bottom = 1\<rparr>
       = Inr \<lparr>dirty = False, lod = True,
           cachedRect = Some \<lparr>x_left = - 4, y_top = 0, x_right = 23, y_bottom = 0\<rparr>,
           generated = [\<lparr>x_left = 0, y_top = 0, x_right = 30, y_bottom = 0\<rparr>,
                        \<lparr>x_left = - 4, y_top = 0, x_right = 23, y_bottom = 0\<rparr>]\<rparr>"
proof -
  let ?a = "\<lparr>x_left = 5, y_top = 0, x_right = 15, y_bottom = 1\<rparr>"
  let ?b = "\<lparr>x_left = 5, y_top = 0, x_right = 14, y_bottom = 1\<rparr>"
  have c: "cachedRect shown_item \<noteq> None" by (simp add: shown_item_def)
  then have h: "dirty shown_item \<or> \<not> lod shown_item \<or> cachedRect shown_item \<noteq> None" by simp
  have va: "still_valid shown_item ?a" and vb: "\<not> still_valid shown_item ?b"
    by (simp_all add: still_valid_def shown_item_def width_def)
  from update_dirty_picture_regenerates [OF h, of ?a] va
  have a: "update_dirty_picture shown_item ?a = Inr shown_item" by auto
  from update_dirty_picture_regenerates [OF h, of ?b] vb
  obtain s where s: "update_dirty_picture shown_item ?b = Inr s"
    and "generated s = generated shown_item @
            [\<lparr>x_left = x_left ?b - width ?b, y_top = 0,
              x_right = x_left ?b - width ?b + 3 * width ?b, y_bottom = 0\<rparr>]"
    and "cachedRect s =
            Some \<lparr>x_left = x_left ?b - width ?b, y_top = 0,
                  x_right = x_left ?b - width ?b + 3 * width ?b, y_bottom = 0\<rparr>"
    and "\<not> dirty s" and "lod s = lod shown_item"
    by blast
  then have "s = \<lparr>dirty = False, lod = True,
           cachedRect = Some \<lparr>x_left = - 4, y_top = 0, x_right = 23, y_bottom = 0\<rparr>,
           generated = [\<lparr>x_left = 0, y_top = 0, x_right = 30, y_bottom = 0\<rparr>,
                        \<lparr>x_left = - 4, y_top = 0, x_right = 23, y_bottom = 0\<rparr>]\<rparr>"
    by (cases s) (simp add: shown_item_def width_def)
  with s a c va vb show ?thesis by simp
qed

section \<open>Properties of the times to row indices\<close>

subsection \<open>Before the first and after the last sample\<close>

lemma filter_later_all:
  fixes t :: real
  assumes "\<forall>x \<in> set xs. t < x"
  shows "filter (\<lambda>p. snd p > t) (enumerate 0 xs) = enumerate 0 xs"
proof -
  have "\<forall>p \<in> set (enumerate 0 xs). snd p > t"
  proof
    fix p assume "p \<in> set (enumerate 0 xs)"
    then have "fst p < length xs" "xs ! fst p = snd p"
      by (simp_all add: in_set_enumerate_eq)
    then have "snd p \<in> set xs"
      using nth_mem by metis
    then show "snd p > t" using assms by simp
  qed
  then show ?thesis by (simp add: filter_id_conv)
qed

lemma filter_later_none:
  fixes t :: real
  assumes "\<forall>x \<in> set xs. x \<le> t"
  shows "filter (\<lambda>p. snd p > t) (enumerate 0 xs) = []"
proof -
  have "\<forall>p \<in> set (enumerate 0 xs). \<not> snd p > t"
  proof
    fix p assume "p \<in> set (enumerate 0 xs)"
    then have "fst p < length xs" "xs ! fst p = snd p"
      by (simp_all add: in_set_enumerate_eq)
    then have "snd p \<in> set xs"
      using nth_mem by metis
    then have "snd p \<le> t" using assms by blast
    then show "\<not> snd p > t" by simp
  qed
  then show ?thesis by (simp add: filter_empty_conv)
qed

lemma index_before_first:
  assumes "2 \<le> length xs" and "\<forall>x \<in> set xs. t < x" and "xs ! 1 \<noteq> xs ! 0"
  shows "index_of_time xs i t = Inr (Some (Some ((t - xs ! 0) / (xs ! 1 - xs ! 0))))"
proof -
  have ne: "xs \<noteq> []" using assms(1) by auto
  then have e: "enumerate 0 xs \<noteq> []" by (cases xs) auto
  have h: "fst (hd (enumerate 0 xs)) = 0" using ne by (cases xs) auto
  have l: "\<not> length xs \<le> Suc 0" using assms(1) by simp
  show ?thesis
    unfolding index_of_time_def filter_later_all [OF assms(2)] Let_def
    using ne e h l assms(3) by (simp add: py_div_def lerp_def)
qed

lemma index_at_last:
  assumes "xs \<noteq> []" and "\<forall>x \<in> set xs. x \<le> t" and "last xs = t"
  shows "index_of_time xs i t = Inr (Some (Some (real (length xs - 1))))"
  unfolding index_of_time_def filter_later_none [OF assms(2)] Let_def
  using assms(1,3) by simp

lemma index_after_last:
  assumes "xs \<noteq> []" and "\<forall>x \<in> set xs. x < t"
  shows "index_of_time xs 0 t = Inl AssertionError" and "0 < i \<Longrightarrow> index_of_time xs i t = Inr None"
proof -
  have le: "\<forall>x \<in> set xs. x \<le> t" using assms(2) by auto
  have "last xs \<in> set xs" using assms(1) by simp
  then have lt: "last xs < t" using assms(2) by blast
  show "index_of_time xs 0 t = Inl AssertionError"
    unfolding index_of_time_def filter_later_none [OF le] Let_def
    using assms(1) lt by simp
  show "0 < i \<Longrightarrow> index_of_time xs i t = Inr None"
    unfolding index_of_time_def filter_later_none [OF le] Let_def
    using assms(1) lt by simp
qed

lemma u_pdtime2index_single:
  assumes "10 ^ 10 \<le> t" and "t \<le> 10 ^ 13"
  shows "u_pdtime2index (Some xs) (Numbers [t]) =
    (case index_of_time xs 0 t of Inl e \<Rightarrow> Inl e | Inr None \<Rightarrow> Inr [] | Inr (Some v) \<Rightarrow> Inr [v])"
  using assms by (simp add: u_pdtime2index_def split: sum.splits option.splits)

text \<open>
  Claim C7, as the code has it. A time before every known sample is not refused: with at
  least two samples, the first two at different times, the index is extrapolated from the
  first two rows, \<open>(t - x0) / (x1 - x0)\<close>, negative when \<open>x0 < x1\<close>. A time equal to the
  last sample's, with no later sample, gives the last index. A time after every sample
  fails the assertion when it is the first of the series, and is passed over otherwise.
  (For \<^verbatim>\<open>_pdtime2index\<close> on one number of milliseconds, which the unit conversion leaves
  as it is.)
\<close>

theorem index_of_time_edges:
  "(2 \<le> length xs \<and> (\<forall>x \<in> set xs. t < x) \<and> xs ! 1 \<noteq> xs ! 0 \<longrightarrow>
      index_of_time xs i t = Inr (Some (Some ((t - xs ! 0) / (xs ! 1 - xs ! 0))))
    \<and> (xs ! 0 < xs ! 1 \<longrightarrow> (t - xs ! 0) / (xs ! 1 - xs ! 0) < 0)
    \<and> (10 ^ 10 \<le> t \<and> t \<le> 10 ^ 13 \<longrightarrow>
         u_pdtime2index (Some xs) (Numbers [t]) = Inr [Some ((t - xs ! 0) / (xs ! 1 - xs ! 0))]))
   \<and> (xs \<noteq> [] \<and> (\<forall>x \<in> set xs. x \<le> t) \<and> last xs = t \<longrightarrow>
      index_of_time xs i t = Inr (Some (Some (real (length xs - 1))))
    \<and> (10 ^ 10 \<le> t \<and> t \<le> 10 ^ 13 \<longrightarrow>
         u_pdtime2index (Some xs) (Numbers [t]) = Inr [Some (real (length xs - 1))]))
   \<and> (xs \<noteq> [] \<and> (\<forall>x \<in> set xs. x < t) \<longrightarrow>
      index_of_time xs 0 t = Inl AssertionError
    \<and> (0 < i \<longrightarrow> index_of_time xs i t = Inr None)
    \<and> (10 ^ 10 \<le> t \<and> t \<le> 10 ^ 13 \<longrightarrow>
         u_pdtime2index (Some xs) (Numbers [t]) = Inl AssertionError))"
proof -
  have a: "index_of_time xs i t = Inr (Some (Some ((t - xs ! 0) / (xs ! 1 - xs ! 0))))
    \<and> (xs ! 0 < xs ! 1 \<longrightarrow> (t - xs ! 0) / (xs ! 1 - xs ! 0) < 0)
    \<and> (10 ^ 10 \<le> t \<and> t \<le> 10 ^ 13 \<longrightarrow>
         u_pdtime2index (Some xs) (Numbers [t]) = Inr [Some ((t - xs ! 0) / (xs ! 1 - xs ! 0))])"
    if h: "2 \<le> length xs \<and> (\<forall>x \<in> set xs. t < x) \<and> xs ! 1 \<noteq> xs ! 0"
  proof -
    have l: "2 \<le> length xs" and b: "\<forall>x \<in> set xs. t < x" and d: "xs ! 1 \<noteq> xs ! 0"
      using h by simp_all
    have e: "index_of_time xs j t = Inr (Some (Some ((t - xs ! 0) / (xs ! 1 - xs ! 0))))" for j
      using l b d by (rule index_before_first)
    have "0 < length xs" using l by linarith
    then have "xs ! 0 \<in> set xs" by (rule nth_mem)
    then have "t - xs ! 0 < 0" using b by auto
    then have n: "xs ! 0 < xs ! 1 \<longrightarrow> (t - xs ! 0) / (xs ! 1 - xs ! 0) < 0"
      by (simp add: divide_neg_pos)
    have "10 ^ 10 \<le> t \<and> t \<le> 10 ^ 13 \<longrightarrow>
         u_pdtime2index (Some xs) (Numbers [t]) = Inr [Some ((t - xs ! 0) / (xs ! 1 - xs ! 0))]"
      using u_pdtime2index_single [of t xs] e [of 0] by simp
    with e n show ?thesis by blast
  qed
  have b: "index_of_time xs i t = Inr (Some (Some (real (length xs - 1))))
    \<and> (10 ^ 10 \<le> t \<and> t \<le> 10 ^ 13 \<longrightarrow>
         u_pdtime2index (Some xs) (Numbers [t]) = Inr [Some (real (length xs - 1))])"
    if h: "xs \<noteq> [] \<and> (\<forall>x \<in> set xs. x \<le> t) \<and> last xs = t"
  proof -
    have e: "index_of_time xs j t = Inr (Some (Some (real (length xs - 1))))" for j
      using h by (intro index_at_last) simp_all
    then show ?thesis using u_pdtime2index_single [of t xs] e [of 0] by simp
  qed
  have c: "index_of_time xs 0 t = Inl AssertionError
    \<and> (0 < i \<longrightarrow> index_of_time xs i t = Inr None)
    \<and> (10 ^ 10 \<le> t \<and> t \<le> 10 ^ 13 \<longrightarrow>
         u_pdtime2index (Some xs) (Numbers [t]) = Inl AssertionError)"
    if h: "xs \<noteq> [] \<and> (\<forall>x \<in> set xs. x < t)"
  proof -
    have ne: "xs \<noteq> []" and lt: "\<forall>x \<in> set xs. x < t" using h by simp_all
    have e: "index_of_time xs 0 t = Inl AssertionError"
      using ne lt by (rule index_after_last(1))
    have f: "0 < i \<longrightarrow> index_of_time xs i t = Inr None"
      using index_after_last(2) [OF ne lt] by blast
    show ?thesis using e f u_pdtime2index_single [of t xs] by simp
  qed
  show ?thesis using a b c by blast
qed

text \<open>
  A time half a minute before the first of three samples a minute apart: the result is the
  index \<open>-1/2\<close>, not an error.
\<close>

theorem u_pdtime2index_counterexample:
  "u_pdtime2index (Some [1600000000000, 1600000060000, 1600000120000]) (Numbers [1599999970000])
    = Inr [Some (- (1 / 2))]"
  by (simp add: u_pdtime2index_def index_of_time_def py_div_def lerp_def Let_def)

theorem index_of_time_edges_witness:
  "2 \<le> length minute_times \<and> minute_times ! 1 \<noteq> minute_times ! 0
   \<and> (1599999970000 :: real) < 1600000000000
   \<and> index_of_time minute_times 0 1599999970000 = Inr (Some (Some (- (1 / 2))))
   \<and> u_pdtime2index (Some minute_times) (Numbers [1599999970000]) = Inr [Some (- (1 / 2))]
   \<and> last minute_times = 1600000120000
   \<and> u_pdtime2index (Some minute_times) (Numbers [1600000120000]) = Inr [Some 2]
   \<and> u_pdtime2index (Some minute_times) (Numbers [1600000180000]) = Inl AssertionError
   \<and> index_of_time minute_times 1 1600000180000 = Inr None"
proof -
  have l: "2 \<le> length minute_times" and d: "minute_times ! 1 \<noteq> minute_times ! 0"
    and ne: "minute_times \<noteq> []" and la: "last minute_times = 1600000120000"
    by (simp_all add: minute_times_def)
  have b: "\<forall>x \<in> set minute_times. 1599999970000 < x"
    and m: "\<forall>x \<in> set minute_times. x \<le> 1600000120000"
    and a: "\<forall>x \<in> set minute_times. x < 1600000180000"
    by (simp_all add: minute_times_def)
  have r: "(10 :: real) ^ 10 \<le> 1599999970000" "(1599999970000 :: real) \<le> 10 ^ 13"
    "(10 :: real) ^ 10 \<le> 1600000120000" "(1600000120000 :: real) \<le> 10 ^ 13"
    "(10 :: real) ^ 10 \<le> 1600000180000" "(1600000180000 :: real) \<le> 10 ^ 13"
    by simp_all
  from index_of_time_edges [of minute_times 1599999970000 0] l b d r
  have "index_of_time minute_times 0 1599999970000
      = Inr (Some (Some ((1599999970000 - minute_times ! 0) / (minute_times ! 1 - minute_times ! 0))))"
    and "u_pdtime2index (Some minute_times) (Numbers [1599999970000])
      = Inr [Some ((1599999970000 - minute_times ! 0) / (minute_times ! 1 - minute_times ! 0))]"
    by blast+
  then have before: "index_of_time minute_times 0 1599999970000 = Inr (Some (Some (- (1 / 2))))"
    "u_pdtime2index (Some minute_times) (Numbers [1599999970000]) = Inr [Some (- (1 / 2))]"
    by (simp_all add: minute_times_def)
  from index_of_time_edges [of minute_times 1600000120000 0] ne m la r
  have "u_pdtime2index (Some minute_times) (Numbers [1600000120000])
      = Inr [Some (real (length minute_times - 1))]"
    by blast
  then have at_last: "u_pdtime2index (Some minute_times) (Numbers [1600000120000]) = Inr [Some 2]"
    by (simp add: minute_times_def)
  from index_of_time_edges [of minute_times 1600000180000 1] ne a r
  have after: "u_pdtime2index (Some minute_times) (Numbers [1600000180000]) = Inl AssertionError"
    "index_of_time minute_times 1 1600000180000 = Inr None"
    by (blast, simp)
  show ?thesis using l d la before at_last after by simp
qed

end
